theory Spec2Isabelle
  imports Main "HOL-Library.Word" "HOL-Library.Log_Nat" "HOL-Library.Multiset"
begin

unbundle bit_operations_syntax

section \<open>Addresses, big integers and the net package\<close>

text \<open>
  A Go \<open>net.IP\<close> is a byte slice, modelled as a list of 8-bit words. A nil slice and an
  empty slice are both the empty list: the code only takes lengths and indexes.
  A \<open>*big.Int\<close> is an \<open>int\<close>. A Go panic (index or slice bounds out of range) is the
  value \<open>None\<close> of an option type.
\<close>

type_synonym byte = "8 word"
type_synonym IP = "byte list"

text \<open>\<open>big.Int.SetBytes\<close>: the big-endian unsigned value of a byte slice.\<close>

fun SetBytes :: "byte list \<Rightarrow> int" where
  "SetBytes [] = 0"
| "SetBytes (b # bs) = uint b * 256 ^ length bs + SetBytes bs"

text \<open>\<open>big.Int.Bytes\<close>: the minimal big-endian bytes of the absolute value.\<close>

function Bytes_nat :: "nat \<Rightarrow> byte list" where
  "Bytes_nat n = (if n = 0 then [] else Bytes_nat (n div 256) @ [of_nat (n mod 256)])"
  by pat_completeness auto
termination
  by (relation "measure id") auto

declare Bytes_nat.simps [simp del]

definition Bytes :: "int \<Rightarrow> byte list" where
  "Bytes d = Bytes_nat (nat \<bar>d\<bar>)"

definition v4InV6Prefix :: "byte list" where
  "v4InV6Prefix = [0, 0, 0, 0, 0, 0, 0, 0, 0, 0, 0xff, 0xff]"

text \<open>\<open>net.IP.To4\<close> and \<open>net.IP.To16\<close>; \<open>None\<close> is the nil result.\<close>

definition To4 :: "IP \<Rightarrow> IP option" where
  "To4 ip = (if length ip = 4 then Some ip
             else if length ip = 16 \<and> take 12 ip = v4InV6Prefix then Some (drop 12 ip)
             else None)"

definition To16 :: "IP \<Rightarrow> IP option" where
  "To16 ip = (if length ip = 4 then Some (v4InV6Prefix @ ip)
              else if length ip = 16 then Some ip
              else None)"

text \<open>\<open>net.CIDRMask\<close>: the loop over the mask bytes, with the running count \<open>n\<close>.\<close>

fun mask_bytes :: "nat \<Rightarrow> nat \<Rightarrow> byte list" where
  "mask_bytes n 0 = []"
| "mask_bytes n (Suc l) =
     (if n \<ge> 8 then 0xff # mask_bytes (n - 8) l
      else NOT (drop_bit n 0xff) # mask_bytes 0 l)"

definition CIDRMask :: "int \<Rightarrow> int \<Rightarrow> byte list" where
  "CIDRMask ones bits =
     (if bits \<noteq> 32 \<and> bits \<noteq> 128 then []
      else if ones < 0 \<or> ones > bits then []
      else mask_bytes (nat ones) (nat (bits div 8)))"

text \<open>\<open>net.IP.Mask\<close>: bytewise AND; nil when the lengths do not fit.\<close>

definition allFF :: "byte list \<Rightarrow> bool" where
  "allFF bs = list_all (\<lambda>b. b = 0xff) bs"

definition IP_Mask :: "IP \<Rightarrow> byte list \<Rightarrow> IP" where
  "IP_Mask ip0 mask0 =
     (let mask = (if length mask0 = 16 \<and> length ip0 = 4 \<and> allFF (take 12 mask0)
                  then drop 12 mask0 else mask0);
          ip = (if length mask = 4 \<and> length ip0 = 16 \<and> take 12 ip0 = v4InV6Prefix
                then drop 12 ip0 else ip0)
      in if length ip \<noteq> length mask then []
         else map2 (\<lambda>a m. a AND m) ip mask)"

record IPNet =
  IP :: IP
  Mask :: "byte list"

record CIDR =
  Network :: IPNet
  cStartIP :: IP
  cEndIP :: IP

record DecimalRange =
  First :: int
  Last :: int
  IsIPv4 :: bool

section \<open>The normalizer\<close>

definition bigIntLog2 :: "int \<Rightarrow> int" where
  "bigIntLog2 n = (if n \<le> 0 then 0 else bitlen \<bar>n\<bar> - 1)"

text \<open>The counting loop of \<open>bigIntTrailingZeros\<close>, stopped at 128.\<close>

function tz_loop :: "int \<Rightarrow> nat \<Rightarrow> nat" where
  "tz_loop n cnt =
     (if \<not> bit n cnt
      then (if cnt + 1 \<ge> 128 then cnt + 1 else tz_loop n (cnt + 1))
      else cnt)"
  by pat_completeness auto
termination
  by (relation "measure (\<lambda>(n, cnt). 128 - cnt)") auto

declare tz_loop.simps [simp del]

definition bigIntTrailingZeros :: "int \<Rightarrow> int" where
  "bigIntTrailingZeros n = (if n = 0 then 0 else int (tz_loop n 0))"

definition decimalToIP :: "int \<Rightarrow> bool \<Rightarrow> IP" where
  "decimalToIP decimal isIPv4 =
     (let bytes = Bytes decimal; n = (if isIPv4 then 4 else 16)
      in if length bytes \<le> n then replicate (n - length bytes) 0 @ bytes
         else drop (length bytes - n) bytes)"

text \<open>
  \<open>calculateNetworkEndIP\<close> indexes the mask with the indices of the address: it panics
  when the mask is shorter than the address.
\<close>

definition calculateNetworkEndIP :: "IPNet \<Rightarrow> IP option" where
  "calculateNetworkEndIP network =
     (if length (Mask network) < length (IP network) then None
      else Some (map2 (\<lambda>a m. a OR NOT m) (IP network) (Mask network)))"

definition createCIDRFromDecimalRange :: "int \<Rightarrow> int \<Rightarrow> bool \<Rightarrow> CIDR option" where
  "createCIDRFromDecimalRange start prefixLen isIPv4 =
     (let startIP = decimalToIP start isIPv4;
          bits = (if isIPv4 then 32 else 128);
          mask = CIDRMask prefixLen bits;
          network = \<lparr>IP = IP_Mask startIP mask, Mask = mask\<rparr>
      in case calculateNetworkEndIP network of
           None \<Rightarrow> None
         | Some e \<Rightarrow> Some \<lparr>Network = network, cStartIP = IP network, cEndIP = e\<rparr>)"

definition IPv4zero :: IP where
  "IPv4zero = v4InV6Prefix @ [0, 0, 0, 0]"

definition IPv6zero :: IP where
  "IPv6zero = replicate 16 0"

text \<open>The full-range CIDR of the special case \<open>first == 0 && length == 0\<close>.\<close>

definition fullRangeCIDR :: "bool \<Rightarrow> CIDR option" where
  "fullRangeCIDR isIPv4 =
     (let network = (if isIPv4 then \<lparr>IP = IPv4zero, Mask = CIDRMask 0 32\<rparr>
                     else \<lparr>IP = IPv6zero, Mask = CIDRMask 0 128\<rparr>)
      in case calculateNetworkEndIP network of
           None \<Rightarrow> None
         | Some e \<Rightarrow> Some \<lparr>Network = network, cStartIP = IP network, cEndIP = e\<rparr>)"

text \<open>
  The main loop of \<open>rustStyleNormalized\<close> for one range: \<open>first\<close> and \<open>length\<close> are the
  loop variables, \<open>acc\<close> is \<open>normalizedRanges\<close>.
\<close>

function normalize_loop :: "bool \<Rightarrow> int \<Rightarrow> int \<Rightarrow> CIDR list \<Rightarrow> CIDR list option" where
  "normalize_loop isIPv4 first len acc =
     (if len > 0 then
        (let maxBits = (if isIPv4 then 32 else 128);
             lengthLog2 = bigIntLog2 len;
             firstTrailingZeros = (if first = 0 then maxBits else bigIntTrailingZeros first);
             minPower = (if firstTrailingZeros < lengthLog2 then firstTrailingZeros else lengthLog2);
             b = 2 ^ nat minPower;
             prefixLen = maxBits - minPower
         in case createCIDRFromDecimalRange first prefixLen isIPv4 of
              None \<Rightarrow> None
            | Some cidr \<Rightarrow> normalize_loop isIPv4 (first + b) (len - b) (acc @ [cidr]))
      else Some acc)"
  by pat_completeness auto
termination
  by (relation "measure (\<lambda>(isIPv4, first, len, acc). nat len)") auto

declare normalize_loop.simps [simp del]

text \<open>The loop over the ranges; the special case leaves it with \<open>break\<close>.\<close>

fun normalize_ranges :: "bool \<Rightarrow> DecimalRange list \<Rightarrow> CIDR list \<Rightarrow> CIDR list option" where
  "normalize_ranges isIPv4 [] acc = Some acc"
| "normalize_ranges isIPv4 (r # rs) acc =
     (let first = First r; len = Last r - First r + 1
      in if first = 0 \<and> len = 0 then
           (case fullRangeCIDR isIPv4 of None \<Rightarrow> None | Some c \<Rightarrow> Some (acc @ [c]))
         else (case normalize_loop isIPv4 first len acc of
                 None \<Rightarrow> None
               | Some acc' \<Rightarrow> normalize_ranges isIPv4 rs acc'))"

definition rustStyleNormalized :: "DecimalRange list \<Rightarrow> bool \<Rightarrow> CIDR list option" where
  "rustStyleNormalized ranges isIPv4 = normalize_ranges isIPv4 ranges []"


section \<open>Ranges and the aggregator\<close>

text \<open>
  \<open>IPRange\<close> as the extractor builds it. The \<open>CIDR\<close> string is
  \<open>fmt.Sprintf("%s/%d", ip.String(), prefixLen)\<close>; the model keeps the pair that the
  text is printed from.
\<close>

record IPRange =
  CIDR_s :: "IP \<times> int"
  StartIP :: IP
  EndIP :: IP
  Info :: "string list"
  RawData :: string
  Type_s :: string

text \<open>
  \<open>compareIPs\<close>: the loop runs over the indices of \<open>ip1\<close> and reads \<open>ip2\<close> at the same
  index, which panics when \<open>ip2\<close> is shorter.
\<close>

fun compare_loop :: "byte list \<Rightarrow> byte list \<Rightarrow> int option" where
  "compare_loop [] ys = Some 0"
| "compare_loop (x # xs) [] = None"
| "compare_loop (x # xs) (y # ys) =
     (if x < y then Some (- 1) else if x > y then Some 1 else compare_loop xs ys)"

definition nil_or :: "IP option \<Rightarrow> IP" where
  "nil_or r = (case r of None \<Rightarrow> [] | Some ip \<Rightarrow> ip)"

definition compareIPs :: "IP \<Rightarrow> IP \<Rightarrow> int option" where
  "compareIPs ip1 ip2 =
     (if length ip1 \<noteq> length ip2
      then compare_loop (nil_or (To16 ip1)) (nil_or (To16 ip2))
      else compare_loop ip1 ip2)"

definition ipToDecimal :: "IP \<Rightarrow> int option" where
  "ipToDecimal ip =
     (case To4 ip of
        Some ipv4 \<Rightarrow> Some (SetBytes ipv4)
      | None \<Rightarrow> (case To16 ip of None \<Rightarrow> None | Some ip16 \<Rightarrow> Some (SetBytes ip16)))"

text \<open>The comparison closure handed to \<open>sort.Slice\<close>; \<open>None\<close> when \<open>compareIPs\<close> panics.\<close>

definition less_StartIP :: "IPRange \<Rightarrow> IPRange \<Rightarrow> bool option" where
  "less_StartIP a b = map_option (\<lambda>c. c < 0) (compareIPs (StartIP a) (StartIP b))"

text \<open>
  \<open>sort.Slice\<close> belongs to the Go library and is not stable, so the order it gives to
  ranges with equal first addresses is not specified. The functions below take it as the
  parameter \<open>sortSlice\<close> (\<open>None\<close>: the comparison panicked), and the theorems ask of it
  what the library promises: on addresses of 4 or 16 bytes the result is a permutation
  of the input in which no later element is less than an earlier one.
\<close>

type_synonym sort_Slice = "(IPRange \<Rightarrow> IPRange \<Rightarrow> bool option) \<Rightarrow> IPRange list \<Rightarrow> IPRange list option"

definition valid_len :: "IP \<Rightarrow> bool" where
  "valid_len ip = (length ip = 4 \<or> length ip = 16)"

definition is_sort_Slice :: "sort_Slice \<Rightarrow> bool" where
  "is_sort_Slice sortSlice =
     (\<forall>xs. (\<forall>r \<in> set xs. valid_len (StartIP r)) \<longrightarrow>
        (\<exists>ys. sortSlice less_StartIP xs = Some ys \<and> mset ys = mset xs \<and>
              sorted_wrt (\<lambda>a b. less_StartIP b a = Some False) ys))"

text \<open>The conversion loop: a range is kept when both addresses convert.\<close>

fun toDecimalPairs :: "IPRange list \<Rightarrow> bool \<Rightarrow> DecimalRange list" where
  "toDecimalPairs [] isIPv4 = []"
| "toDecimalPairs (r # rs) isIPv4 =
     (case (ipToDecimal (StartIP r), ipToDecimal (EndIP r)) of
        (Some first, Some lst) \<Rightarrow>
          \<lparr>First = first, Last = lst, IsIPv4 = isIPv4\<rparr> # toDecimalPairs rs isIPv4
      | _ \<Rightarrow> toDecimalPairs rs isIPv4)"

text \<open>The merging loop, with \<open>lastRange\<close> and \<open>aggregatedRanges\<close> as the state.\<close>

fun aggregate_loop :: "DecimalRange \<Rightarrow> DecimalRange list \<Rightarrow> DecimalRange list \<Rightarrow> DecimalRange list" where
  "aggregate_loop lastRange [] aggregatedRanges = aggregatedRanges @ [lastRange]"
| "aggregate_loop lastRange (currentRange # rest) aggregatedRanges =
     (let maxFirst = (if First currentRange < 1 then 1 else First currentRange);
          condition = maxFirst - 1
      in if condition \<le> Last lastRange then
           aggregate_loop
             (if Last currentRange > Last lastRange
              then lastRange\<lparr>Last := Last currentRange\<rparr> else lastRange)
             rest aggregatedRanges
         else aggregate_loop currentRange rest (aggregatedRanges @ [lastRange]))"

definition rustStyleAggregated :: "sort_Slice \<Rightarrow> IPRange list \<Rightarrow> bool \<Rightarrow> DecimalRange list option" where
  "rustStyleAggregated sortSlice ranges isIPv4 =
     (if ranges = [] then Some []
      else case sortSlice less_StartIP ranges of
             None \<Rightarrow> None
           | Some sorted_ranges \<Rightarrow>
               (case toDecimalPairs sorted_ranges isIPv4 of
                  [] \<Rightarrow> Some []
                | first_pair # pairs \<Rightarrow> Some (aggregate_loop first_pair pairs [])))"

definition rustStyleAggregateAndNormalize :: "sort_Slice \<Rightarrow> IPRange list \<Rightarrow> bool \<Rightarrow> CIDR list option" where
  "rustStyleAggregateAndNormalize sortSlice ranges isIPv4 =
     (if ranges = [] then Some []
      else case rustStyleAggregated sortSlice ranges isIPv4 of
             None \<Rightarrow> None
           | Some aggregated \<Rightarrow> rustStyleNormalized aggregated isIPv4)"

text \<open>
  \<open>SmartMergeNonChinaCIDRs\<close>; the two printed lines depend on the results only and are
  left out.
\<close>

definition SmartMergeNonChinaCIDRs ::
  "sort_Slice \<Rightarrow> IPRange list \<Rightarrow> IPRange list \<Rightarrow> IPRange list \<Rightarrow> IPRange list
     \<Rightarrow> (CIDR list \<times> CIDR list) option" where
  "SmartMergeNonChinaCIDRs sortSlice allIPv4 allIPv6 nonChinaIPv4 nonChinaIPv6 =
     (case rustStyleAggregateAndNormalize sortSlice nonChinaIPv4 True of
        None \<Rightarrow> None
      | Some mergedIPv4 \<Rightarrow>
          (case rustStyleAggregateAndNormalize sortSlice nonChinaIPv6 False of
             None \<Rightarrow> None
           | Some mergedIPv6 \<Rightarrow> Some (mergedIPv4, mergedIPv6)))"

section \<open>The classifier and the filter\<close>

text \<open>
  Go strings are byte strings; the labels that are not ASCII are written with their
  UTF-8 bytes.
\<close>

definition str_Zhongguo :: string where
  "str_Zhongguo = [CHR 0xE4, CHR 0xB8, CHR 0xAD, CHR 0xE5, CHR 0x9B, CHR 0xBD]"

definition str_Xianggang :: string where
  "str_Xianggang = [CHR 0xE9, CHR 0xA6, CHR 0x99, CHR 0xE6, CHR 0xB8, CHR 0xAF]"

definition str_Aomen :: string where
  "str_Aomen = [CHR 0xE6, CHR 0xBE, CHR 0xB3, CHR 0xE9, CHR 0x97, CHR 0xA8]"

definition str_Taiwan :: string where
  "str_Taiwan = [CHR 0xE5, CHR 0x8F, CHR 0xB0, CHR 0xE6, CHR 0xB9, CHR 0xBE]"

fun strings_HasPrefix :: "string \<Rightarrow> string \<Rightarrow> bool" where
  "strings_HasPrefix s [] = True"
| "strings_HasPrefix [] (p # ps) = False"
| "strings_HasPrefix (c # cs) (p # ps) = (c = p \<and> strings_HasPrefix cs ps)"

fun strings_Contains :: "string \<Rightarrow> string \<Rightarrow> bool" where
  "strings_Contains [] substr = (substr = [])"
| "strings_Contains (c # cs) substr =
     (strings_HasPrefix (c # cs) substr \<or> strings_Contains cs substr)"

record FilterStats =
  TotalRanges :: int
  ChinaFiltered :: int
  PrivateFiltered :: int
  HongKongKept :: int
  MacaoKept :: int
  TaiwanKept :: int
  OtherKept :: int
  ChinaCIDRsSaved :: int

definition countryName_of :: "string list \<Rightarrow> string" where
  "countryName_of info = info ! 0"

definition regionName_of :: "string list \<Rightarrow> string" where
  "regionName_of info = (if length info > 1 then info ! 1 else [])"

definition is_China_name :: "string \<Rightarrow> bool" where
  "is_China_name countryName =
     (countryName = str_Zhongguo \<or> countryName = ''CN'' \<or> countryName = ''China'')"

definition IsMainlandChina :: "string list \<Rightarrow> bool" where
  "IsMainlandChina info =
     (if length info = 0 then False
      else let countryName = countryName_of info; regionName = regionName_of info
           in if is_China_name countryName then
                (if strings_Contains regionName str_Xianggang \<or> strings_Contains regionName ''Hong Kong'' \<or>
                    strings_Contains regionName str_Aomen \<or> strings_Contains regionName ''Macao'' \<or>
                    strings_Contains regionName ''Macau'' \<or>
                    strings_Contains regionName str_Taiwan \<or> strings_Contains regionName ''Taiwan''
                 then False else True)
              else False)"

definition isHongKong :: "string list \<Rightarrow> bool" where
  "isHongKong info =
     (if length info = 0 then False
      else let countryName = countryName_of info; regionName = regionName_of info
           in is_China_name countryName \<and>
              (strings_Contains regionName str_Xianggang \<or> strings_Contains regionName ''Hong Kong''))"

definition isMacao :: "string list \<Rightarrow> bool" where
  "isMacao info =
     (if length info = 0 then False
      else let countryName = countryName_of info; regionName = regionName_of info
           in is_China_name countryName \<and>
              (strings_Contains regionName str_Aomen \<or> strings_Contains regionName ''Macao'' \<or>
               strings_Contains regionName ''Macau''))"

definition isTaiwan :: "string list \<Rightarrow> bool" where
  "isTaiwan info =
     (if length info = 0 then False
      else let countryName = countryName_of info; regionName = regionName_of info
           in is_China_name countryName \<and>
              (strings_Contains regionName str_Taiwan \<or> strings_Contains regionName ''Taiwan''))"

text \<open>\<open>net.IP.Equal\<close>, \<open>IsLoopback\<close> and \<open>IsUnspecified\<close> of the Go library.\<close>

definition IP_Equal :: "IP \<Rightarrow> IP \<Rightarrow> bool" where
  "IP_Equal ip x =
     (if length ip = length x then ip = x
      else if length ip = 4 \<and> length x = 16 then take 12 x = v4InV6Prefix \<and> ip = drop 12 x
      else if length ip = 16 \<and> length x = 4 then take 12 ip = v4InV6Prefix \<and> drop 12 ip = x
      else False)"

definition IPv6loopback :: IP where
  "IPv6loopback = replicate 15 0 @ [1]"

definition IPv6unspecified :: IP where
  "IPv6unspecified = replicate 16 0"

definition IsLoopback :: "IP \<Rightarrow> bool" where
  "IsLoopback ip = (case To4 ip of Some ip4 \<Rightarrow> ip4 ! 0 = 127 | None \<Rightarrow> IP_Equal ip IPv6loopback)"

definition IsUnspecified :: "IP \<Rightarrow> bool" where
  "IsUnspecified ip = (IP_Equal ip IPv4zero \<or> IP_Equal ip IPv6unspecified)"

text \<open>
  \<open>IsPrivateOrReserved\<close>. The IPv4 branch is taken when \<open>To4\<close> is not nil, and then
  reads \<open>startIP[0]\<close> and \<open>startIP[1]\<close> of the slice as it was passed, not of the
  4-byte form. In the other branch \<open>startIP[0]\<close> and \<open>startIP[1]\<close> panic on a slice that
  is too short.
\<close>

definition IsPrivateOrReserved :: "IP \<Rightarrow> IP \<Rightarrow> bool option" where
  "IsPrivateOrReserved startIP endIP =
     (if To4 startIP \<noteq> None then
        (if startIP ! 0 = 10 then Some True
         else if startIP ! 0 = 172 \<and> startIP ! 1 \<ge> 16 \<and> startIP ! 1 \<le> 31 then Some True
         else if startIP ! 0 = 192 \<and> startIP ! 1 = 168 then Some True
         else if startIP ! 0 = 127 then Some True
         else if startIP ! 0 = 169 \<and> startIP ! 1 = 254 then Some True
         else if startIP ! 0 \<ge> 224 \<and> startIP ! 0 \<le> 239 then Some True
         else if startIP ! 0 \<ge> 240 then Some True
         else if startIP ! 0 = 0 then Some True
         else Some False)
      else
        (if IsLoopback startIP then Some True
         else if length startIP = 0 then None
         else if startIP ! 0 = 0xfe \<and> length startIP < 2 then None
         else if startIP ! 0 = 0xfe \<and> (startIP ! 1) AND 0xc0 = 0x80 then Some True
         else if (startIP ! 0) AND 0xfe = 0xfc then Some True
         else if startIP ! 0 = 0xff then Some True
         else if IsUnspecified startIP then Some True
         else Some False))"

definition zeroStats :: FilterStats where
  "zeroStats = \<lparr>TotalRanges = 0, ChinaFiltered = 0, PrivateFiltered = 0, HongKongKept = 0,
                 MacaoKept = 0, TaiwanKept = 0, OtherKept = 0, ChinaCIDRsSaved = 0\<rparr>"

text \<open>
  The loop of \<open>FilterRanges\<close> over \<open>filtered\<close>, \<open>chinaRanges\<close> and \<open>stats\<close>. The counters
  are Go \<open>int\<close>s that count elements of a slice, so they cannot overflow.
\<close>

fun filter_loop ::
  "IPRange list \<Rightarrow> IPRange list \<times> IPRange list \<times> FilterStats
     \<Rightarrow> (IPRange list \<times> IPRange list \<times> FilterStats) option" where
  "filter_loop [] st = Some st"
| "filter_loop (r # rs) (filtered, chinaRanges, stats) =
     (if IsMainlandChina (Info r) then
        (let stats1 = stats\<lparr>ChinaFiltered := ChinaFiltered stats + 1\<rparr>
         in case IsPrivateOrReserved (StartIP r) (EndIP r) of
              None \<Rightarrow> None
            | Some reserved \<Rightarrow>
                filter_loop rs
                  (filtered, if \<not> reserved then chinaRanges @ [r] else chinaRanges, stats1))
      else
        (let stats1 =
               (if isHongKong (Info r) then stats\<lparr>HongKongKept := HongKongKept stats + 1\<rparr>
                else if isMacao (Info r) then stats\<lparr>MacaoKept := MacaoKept stats + 1\<rparr>
                else if isTaiwan (Info r) then stats\<lparr>TaiwanKept := TaiwanKept stats + 1\<rparr>
                else stats\<lparr>OtherKept := OtherKept stats + 1\<rparr>)
         in case IsPrivateOrReserved (StartIP r) (EndIP r) of
              None \<Rightarrow> None
            | Some reserved \<Rightarrow>
                if reserved then
                  filter_loop rs
                    (filtered, chinaRanges, stats1\<lparr>PrivateFiltered := PrivateFiltered stats1 + 1\<rparr>)
                else filter_loop rs (filtered @ [r], chinaRanges, stats1)))"

definition FilterRanges :: "IPRange list \<Rightarrow> (IPRange list \<times> IPRange list \<times> FilterStats) option" where
  "FilterRanges ranges =
     (case filter_loop ranges ([], [], zeroStats\<lparr>TotalRanges := int (length ranges)\<rparr>) of
        None \<Rightarrow> None
      | Some (filtered, chinaRanges, stats) \<Rightarrow>
          Some (filtered, chinaRanges, stats\<lparr>ChinaCIDRsSaved := int (length chinaRanges)\<rparr>))"

text \<open>
  \<open>FilterRangesParallel\<close>. \<open>numCPU\<close> is \<open>runtime.NumCPU()\<close>. Every worker sends its
  result on one channel and the collecting loop takes them as they arrive, so the order
  of the results is the order in which the workers finish: \<open>arrival\<close> lists the worker
  indices in that order. A worker that panics takes the whole program down.
\<close>

definition worker_chunk :: "IPRange list \<Rightarrow> nat \<Rightarrow> nat \<Rightarrow> nat \<Rightarrow> IPRange list" where
  "worker_chunk ranges numWorkers chunkSize i =
     (let start = i * chunkSize;
          endIdx = (if i = numWorkers - 1 then length ranges else start + chunkSize)
      in take (endIdx - start) (drop start ranges))"

definition worker_result :: "IPRange list \<Rightarrow> (IPRange list \<times> IPRange list \<times> FilterStats) option" where
  "worker_result chunk =
     (case FilterRanges chunk of
        None \<Rightarrow> None
      | Some (filtered, chinaRanges, stats) \<Rightarrow>
          Some (filtered, chinaRanges, stats\<lparr>TotalRanges := int (length chunk)\<rparr>))"

fun collect_results ::
  "(IPRange list \<times> IPRange list \<times> FilterStats) option list
     \<Rightarrow> IPRange list \<times> IPRange list \<times> FilterStats
     \<Rightarrow> (IPRange list \<times> IPRange list \<times> FilterStats) option" where
  "collect_results [] acc = Some acc"
| "collect_results (None # rest) acc = None"
| "collect_results (Some (filtered, chinaRanges, stats) # rest) (allFiltered, allChinaRanges, totalStats) =
     collect_results rest
       (allFiltered @ filtered, allChinaRanges @ chinaRanges,
        totalStats\<lparr>ChinaFiltered := ChinaFiltered totalStats + ChinaFiltered stats,
                    PrivateFiltered := PrivateFiltered totalStats + PrivateFiltered stats,
                    HongKongKept := HongKongKept totalStats + HongKongKept stats,
                    MacaoKept := MacaoKept totalStats + MacaoKept stats,
                    TaiwanKept := TaiwanKept totalStats + TaiwanKept stats,
                    OtherKept := OtherKept totalStats + OtherKept stats,
                    ChinaCIDRsSaved := ChinaCIDRsSaved totalStats + ChinaCIDRsSaved stats\<rparr>)"

definition FilterRangesParallel ::
  "nat \<Rightarrow> nat list \<Rightarrow> IPRange list \<Rightarrow> (IPRange list \<times> IPRange list \<times> FilterStats) option" where
  "FilterRangesParallel numCPU arrival ranges =
     (if length ranges = 0 then Some (ranges, [], zeroStats)
      else
        (let numWorkers = (if numCPU > length ranges then length ranges else numCPU)
         in if numWorkers = 0 then None
            else
              (let chunkSize = (if length ranges div numWorkers = 0 then 1
                                else length ranges div numWorkers)
               in collect_results
                    (map (\<lambda>i. worker_result (worker_chunk ranges numWorkers chunkSize i)) arrival)
                    ([], [], zeroStats\<lparr>TotalRanges := int (length ranges)\<rparr>))))"

section \<open>The extractor\<close>

text \<open>
  A Go byte slice that is sliced again can be read up to its capacity, not only up to
  its length. \<open>arr\<close> holds the backing array from the first element of the slice to its
  capacity, \<open>len_s\<close> is the length of the slice.
\<close>

record Slice =
  arr :: "byte list"
  len_s :: nat

definition cap_s :: "Slice \<Rightarrow> nat" where
  "cap_s s = length (arr s)"

text \<open>\<open>s[lo:hi]\<close> and \<open>s[lo:]\<close>; \<open>None\<close> is the panic "slice bounds out of range".\<close>

definition slice_range :: "Slice \<Rightarrow> int \<Rightarrow> int \<Rightarrow> Slice option" where
  "slice_range s lo hi =
     (if 0 \<le> lo \<and> lo \<le> hi \<and> hi \<le> int (cap_s s)
      then Some \<lparr>arr = drop (nat lo) (arr s), len_s = nat (hi - lo)\<rparr>
      else None)"

definition slice_from :: "Slice \<Rightarrow> int \<Rightarrow> Slice option" where
  "slice_from s lo = slice_range s lo (int (len_s s))"

definition bytes_of :: "Slice \<Rightarrow> byte list" where
  "bytes_of s = take (len_s s) (arr s)"

text \<open>An outcome of a call: it returns, it panics, or the fuel of the model ran out.\<close>

datatype 'a outcome = Returns 'a | Panics | OutOfFuel

record MetaData =
  Build :: int
  IPVersion :: "16 word"
  Languages :: "(string \<times> int) list"
  NodeCount :: int
  TotalSize :: int
  Fields :: "string list"

record IPDBExtractor =
  data :: Slice
  nodeCount :: int
  v4offset :: int
  meta :: MetaData

text \<open>
  Node numbers, offsets and counts are Go \<open>int\<close>s (64 bits); they are modelled as
  unbounded integers, which is exact as long as \<open>8 * nodeCount\<close> stays below \<open>2 ^ 63\<close>.
\<close>

definition readNode :: "IPDBExtractor \<Rightarrow> int \<Rightarrow> int \<Rightarrow> int option" where
  "readNode e node index =
     (let off = node * 8 + index * 4
      in case slice_range (data e) off (off + 4) of
           None \<Rightarrow> None
         | Some b \<Rightarrow> Some (SetBytes (bytes_of b)))"

text \<open>The loop of \<open>calculateV4Offset\<close>; \<open>k\<close> counts the remaining rounds, \<open>i = 96 - k\<close>.\<close>

fun v4offset_loop :: "IPDBExtractor \<Rightarrow> nat \<Rightarrow> int \<Rightarrow> int option" where
  "v4offset_loop e 0 node = Some node"
| "v4offset_loop e (Suc k) node =
     (if node < nodeCount e then
        (case readNode e node (if 96 - Suc k \<ge> 80 then 1 else 0) of
           None \<Rightarrow> None
         | Some node' \<Rightarrow> v4offset_loop e k node')
      else Some node)"

definition calculateV4Offset :: "IPDBExtractor \<Rightarrow> IPDBExtractor option" where
  "calculateV4Offset e =
     (case v4offset_loop e 96 0 of None \<Rightarrow> None | Some node \<Rightarrow> Some (e\<lparr>v4offset := node\<rparr>))"

text \<open>
  \<open>NewExtractor\<close>. \<open>file\<close> is what \<open>os.ReadFile\<close> gave (an error or the content) and
  \<open>jsonUnmarshal\<close> stands for \<open>json.Unmarshal\<close> into a \<open>MetaData\<close>. The result is the
  pair that the Go function returns, as a sum: an error or the extractor.
\<close>

definition NewExtractor ::
  "(byte list \<Rightarrow> string + MetaData) \<Rightarrow> string + Slice \<Rightarrow> (string + IPDBExtractor) outcome" where
  "NewExtractor jsonUnmarshal file =
     (case file of
        Inl err \<Rightarrow> Returns (Inl err)
      | Inr body \<Rightarrow>
          (case slice_range body 0 4 of
             None \<Rightarrow> Panics
           | Some b \<Rightarrow>
               (let metaLength = SetBytes (bytes_of b)
                in case slice_range body 4 (4 + metaLength) of
                     None \<Rightarrow> Panics
                   | Some m \<Rightarrow>
                       (case jsonUnmarshal (bytes_of m) of
                          Inl err \<Rightarrow> Returns (Inl err)
                        | Inr mt \<Rightarrow>
                            (case slice_from body (4 + metaLength) of
                               None \<Rightarrow> Panics
                             | Some d \<Rightarrow>
                                 (case calculateV4Offset
                                         \<lparr>data = d, nodeCount = NodeCount mt, v4offset = 0, meta = mt\<rparr> of
                                    None \<Rightarrow> Panics
                                  | Some e \<Rightarrow> Returns (Inr e)))))))"

text \<open>\<open>resolve\<close>: the label bytes of a leaf, an error, or a panic of one of the slicings.\<close>

definition resolve :: "IPDBExtractor \<Rightarrow> int \<Rightarrow> (string + byte list) option" where
  "resolve e node =
     (let resolved = node - nodeCount e + nodeCount e * 8
      in if resolved \<ge> int (len_s (data e)) then Some (Inl ''database error'')
         else case slice_range (data e) resolved (resolved + 2) of
                None \<Rightarrow> None
              | Some b \<Rightarrow>
                  (let size = SetBytes (bytes_of b)
                   in if resolved + 2 + size > int (len_s (data e)) then Some (Inl ''database error'')
                      else case slice_range (data e) (resolved + 2) (resolved + 2 + size) of
                             None \<Rightarrow> None
                           | Some bytes \<Rightarrow> Some (Inr (bytes_of bytes))))"

text \<open>
  \<open>pathToCIDR\<close>: the loop that sets the bits of the path; \<open>ip[byteIndex]\<close> panics when
  a set bit lies beyond the address.
\<close>

fun set_path_bits :: "int list \<Rightarrow> nat \<Rightarrow> byte list \<Rightarrow> byte list option" where
  "set_path_bits [] i ip = Some ip"
| "set_path_bits (b # path) i ip =
     (if b = 1 then
        (let byteIndex = i div 8; bitIndex = 7 - (i mod 8)
         in if byteIndex < length ip
            then set_path_bits path (i + 1) (ip[byteIndex := (ip ! byteIndex) OR push_bit bitIndex 1])
            else None)
      else set_path_bits path (i + 1) ip)"

fun set_host_bits :: "nat list \<Rightarrow> byte list \<Rightarrow> byte list" where
  "set_host_bits [] endIP = endIP"
| "set_host_bits (i # is) endIP =
     set_host_bits is (endIP[i div 8 := (endIP ! (i div 8)) OR push_bit (7 - (i mod 8)) 1])"

definition calculateEndIP :: "IP \<Rightarrow> int \<Rightarrow> bool \<Rightarrow> IP" where
  "calculateEndIP startIP prefixLen isIPv4 =
     (let totalBits = (if isIPv4 then 32 else 128);
          hostBits = totalBits - prefixLen
      in if hostBits = 0 then startIP
         else set_host_bits [nat prefixLen ..< nat totalBits] startIP)"

definition pathToCIDR :: "int list \<Rightarrow> bool \<Rightarrow> ((IP \<times> int) \<times> IP \<times> IP) option" where
  "pathToCIDR path isIPv4 =
     (case set_path_bits path 0 (replicate (if isIPv4 then 4 else 16) 0) of
        None \<Rightarrow> None
      | Some ip \<Rightarrow>
          (let prefixLen = int (length path)
           in Some ((ip, prefixLen), ip, calculateEndIP ip prefixLen isIPv4)))"

text \<open>\<open>string(data)\<close> and \<open>strings.Split(str, "\t")\<close>.\<close>

definition string_of_bytes :: "byte list \<Rightarrow> string" where
  "string_of_bytes bs = map (\<lambda>b. char_of (unat b)) bs"

fun strings_Split :: "string \<Rightarrow> char \<Rightarrow> string list" where
  "strings_Split [] sep = [[]]"
| "strings_Split (c # cs) sep =
     (if c = sep then [] # strings_Split cs sep
      else (case strings_Split cs sep of
              [] \<Rightarrow> [[c]]
            | w # ws \<Rightarrow> (c # w) # ws))"

definition leaf_range :: "((IP \<times> int) \<times> IP \<times> IP) \<Rightarrow> byte list \<Rightarrow> string \<Rightarrow> IPRange" where
  "leaf_range c bytes ty =
     (case c of (cidr, startIP, endIP) \<Rightarrow>
        (let str = string_of_bytes bytes
         in \<lparr>CIDR_s = cidr, StartIP = startIP, EndIP = endIP,
             Info = strings_Split str (CHR 0x09), RawData = str, Type_s = ty\<rparr>))"

definition isIPv4MappedPath :: "int list \<Rightarrow> bool" where
  "isIPv4MappedPath path =
     (if length path < 96 then False
      else if \<exists>i \<in> set [0 ..< 80]. path ! i \<noteq> 0 then False
      else if \<exists>i \<in> set [80 ..< 96]. path ! i \<noteq> 1 then False
      else True)"

text \<open>
  The two walks. They recurse once for every level of the trie, and a trie whose
  pointers form a cycle never ends: the model counts the calls down from \<open>fuel\<close>.
  \<open>ranges\<close> is the slice behind the pointer. A walk gives how it ended and the slice
  as it stands then, also when it panics or is cut off.
\<close>

datatype status = Returned | Panicked | CutOff

fun traverseIPv4Node ::
  "nat \<Rightarrow> IPDBExtractor \<Rightarrow> int \<Rightarrow> int list \<Rightarrow> IPRange list \<Rightarrow> status \<times> IPRange list" where
  "traverseIPv4Node 0 e node path ranges = (CutOff, ranges)"
| "traverseIPv4Node (Suc fuel) e node path ranges =
     (if node \<ge> nodeCount e then
        (case resolve e node of
           None \<Rightarrow> (Panicked, ranges)
         | Some (Inl err) \<Rightarrow> (Returned, ranges)
         | Some (Inr bytes) \<Rightarrow>
             (case pathToCIDR path True of
                None \<Rightarrow> (Panicked, ranges)
              | Some c \<Rightarrow> (Returned, ranges @ [leaf_range c bytes ''IPv4''])))
      else
        (case readNode e node 0 of
           None \<Rightarrow> (Panicked, ranges)
         | Some leftNode \<Rightarrow>
             (case readNode e node 1 of
                None \<Rightarrow> (Panicked, ranges)
              | Some rightNode \<Rightarrow>
                  (case (if leftNode \<noteq> 0 then traverseIPv4Node fuel e leftNode (path @ [0]) ranges
                         else (Returned, ranges)) of
                     (Returned, ranges1) \<Rightarrow>
                       (if rightNode \<noteq> 0 then traverseIPv4Node fuel e rightNode (path @ [1]) ranges1
                        else (Returned, ranges1))
                   | (st, ranges1) \<Rightarrow> (st, ranges1)))))"

fun traverseIPv6NodeFromRoot ::
  "nat \<Rightarrow> IPDBExtractor \<Rightarrow> int \<Rightarrow> int list \<Rightarrow> IPRange list \<Rightarrow> status \<times> IPRange list" where
  "traverseIPv6NodeFromRoot 0 e node path ranges = (CutOff, ranges)"
| "traverseIPv6NodeFromRoot (Suc fuel) e node path ranges =
     (if length path = 96 \<and> isIPv4MappedPath path then (Returned, ranges)
      else if node \<ge> nodeCount e then
        (if \<not> isIPv4MappedPath path then
           (case resolve e node of
              None \<Rightarrow> (Panicked, ranges)
            | Some (Inl err) \<Rightarrow> (Returned, ranges)
            | Some (Inr bytes) \<Rightarrow>
                (case pathToCIDR path False of
                   None \<Rightarrow> (Panicked, ranges)
                 | Some c \<Rightarrow> (Returned, ranges @ [leaf_range c bytes ''IPv6''])))
         else (Returned, ranges))
      else
        (case readNode e node 0 of
           None \<Rightarrow> (Panicked, ranges)
         | Some leftNode \<Rightarrow>
             (case readNode e node 1 of
                None \<Rightarrow> (Panicked, ranges)
              | Some rightNode \<Rightarrow>
                  (case (if leftNode \<noteq> 0 then traverseIPv6NodeFromRoot fuel e leftNode (path @ [0]) ranges
                         else (Returned, ranges)) of
                     (Returned, ranges1) \<Rightarrow>
                       (if rightNode \<noteq> 0 then traverseIPv6NodeFromRoot fuel e rightNode (path @ [1]) ranges1
                        else (Returned, ranges1))
                   | (st, ranges1) \<Rightarrow> (st, ranges1)))))"

text \<open>
  \<open>ExtractAllRanges\<close>: the two range lists and the error, which is always nil
  (\<open>None\<close>).
\<close>

definition ExtractAllRanges ::
  "nat \<Rightarrow> IPDBExtractor \<Rightarrow> (IPRange list \<times> IPRange list \<times> string option) outcome" where
  "ExtractAllRanges fuel e =
     (case (if (IPVersion (meta e)) AND 0x01 \<noteq> 0
            then traverseIPv4Node fuel e (v4offset e) [] [] else (Returned, [])) of
        (Returned, ipv4Ranges) \<Rightarrow>
          (case (if (IPVersion (meta e)) AND 0x02 \<noteq> 0
                 then traverseIPv6NodeFromRoot fuel e 0 [] [] else (Returned, [])) of
             (Returned, ipv6Ranges) \<Rightarrow> Returns (ipv4Ranges, ipv6Ranges, None)
           | (Panicked, ipv6Ranges) \<Rightarrow> Panics
           | (CutOff, ipv6Ranges) \<Rightarrow> OutOfFuel)
      | (Panicked, ipv4Ranges) \<Rightarrow> Panics
      | (CutOff, ipv4Ranges) \<Rightarrow> OutOfFuel)"

section \<open>Notions used in the statements\<close>

definition mkCIDR :: "IP \<Rightarrow> byte list \<Rightarrow> IP \<Rightarrow> CIDR" where
  "mkCIDR ip msk e = \<lparr>Network = \<lparr>IP = ip, Mask = msk\<rparr>, cStartIP = ip, cEndIP = e\<rparr>"

definition maxBits_of :: "bool \<Rightarrow> int" where
  "maxBits_of isIPv4 = (if isIPv4 then 32 else 128)"

text \<open>The exponent that one round of the normalizer's loop computes as \<open>minPower\<close>.\<close>

definition step_power :: "bool \<Rightarrow> int \<Rightarrow> int \<Rightarrow> int" where
  "step_power isIPv4 first len =
     (let lengthLog2 = bigIntLog2 len;
          firstTrailingZeros = (if first = 0 then maxBits_of isIPv4 else bigIntTrailingZeros first)
      in if firstTrailingZeros < lengthLog2 then firstTrailingZeros else lengthLog2)"

subsection \<open>The classification in the words of the specification\<close>

text \<open>
  A mainland label: the country is one of the three names of China and the region
  contains none of the markers of Hong Kong, Macao and Taiwan. A missing column is the
  empty string.
\<close>

definition spec_region_markers :: "string list" where
  "spec_region_markers =
     [str_Xianggang, ''Hong Kong'', str_Aomen, ''Macao'', ''Macau'', str_Taiwan, ''Taiwan'']"

definition spec_contains :: "string \<Rightarrow> string \<Rightarrow> bool" where
  "spec_contains s m = (\<exists>p q. s = p @ m @ q)"

definition spec_mainland_label :: "string list \<Rightarrow> bool" where
  "spec_mainland_label info =
     (let country = (if length info > 0 then info ! 0 else []);
          region = (if length info > 1 then info ! 1 else [])
      in country \<in> {str_Zhongguo, ''CN'', ''China''} \<and>
         (\<forall>m \<in> set spec_region_markers. \<not> spec_contains region m))"

text \<open>
  The reserved blocks of the specification, each as family (\<open>True\<close> for IPv4), prefix
  and prefix length; a block \<open>P/L\<close> of width \<open>W\<close> is the interval from \<open>P\<close> to
  \<open>P + 2 ^ (W - L) - 1\<close>. An address is an IPv4 address when \<open>To4\<close> is not nil.
\<close>

definition spec_reserved_blocks :: "(bool \<times> int \<times> nat) list" where
  "spec_reserved_blocks =
     [(True, 0x00000000, 8), (True, 0x0A000000, 8), (True, 0x7F000000, 8),
      (True, 0xA9FE0000, 16), (True, 0xAC100000, 12), (True, 0xC0A80000, 16),
      (True, 0xE0000000, 4), (True, 0xF0000000, 4),
      (False, 1, 128), (False, 0xFE80 * 2 ^ 112, 10), (False, 0xFC00 * 2 ^ 112, 7),
      (False, 0xFF00 * 2 ^ 112, 8), (False, 0, 128)]"

definition spec_in_block :: "IP \<Rightarrow> bool \<times> int \<times> nat \<Rightarrow> bool" where
  "spec_in_block ip blk =
     (case blk of (v4, P, L) \<Rightarrow>
        (case ipToDecimal ip of
           None \<Rightarrow> False
         | Some a \<Rightarrow> (To4 ip \<noteq> None) = v4 \<and> P \<le> a \<and> a \<le> P + 2 ^ (nat (maxBits_of v4) - L) - 1))"

definition spec_in_reserved_block :: "IP \<Rightarrow> bool" where
  "spec_in_reserved_block ip = (\<exists>blk \<in> set spec_reserved_blocks. spec_in_block ip blk)"

text \<open>
  The two forms of an address that the extractor builds: four bytes for IPv4, and
  sixteen bytes outside \<open>::ffff:0:0/96\<close> for IPv6.
\<close>

definition extractor_form :: "IP \<Rightarrow> bool" where
  "extractor_form ip = (length ip = 4 \<or> (length ip = 16 \<and> take 12 ip \<noteq> v4InV6Prefix))"

subsection \<open>What the filter does with one range\<close>

definition is_reserved :: "IPRange \<Rightarrow> bool" where
  "is_reserved r = (IsPrivateOrReserved (StartIP r) (EndIP r) = Some True)"

definition no_panic :: "IPRange \<Rightarrow> bool" where
  "no_panic r = (IsPrivateOrReserved (StartIP r) (EndIP r) \<noteq> None)"

definition kept :: "IPRange \<Rightarrow> bool" where
  "kept r = (\<not> IsMainlandChina (Info r) \<and> \<not> is_reserved r)"

definition china_kept :: "IPRange \<Rightarrow> bool" where
  "china_kept r = (IsMainlandChina (Info r) \<and> \<not> is_reserved r)"

definition count_of :: "(IPRange \<Rightarrow> bool) \<Rightarrow> IPRange list \<Rightarrow> int" where
  "count_of P rs = int (length (filter P rs))"

text \<open>The counters that the loop adds for a list of ranges.\<close>

definition tally :: "IPRange list \<Rightarrow> FilterStats" where
  "tally rs =
     \<lparr>TotalRanges = 0,
      ChinaFiltered = count_of (\<lambda>r. IsMainlandChina (Info r)) rs,
      PrivateFiltered = count_of (\<lambda>r. \<not> IsMainlandChina (Info r) \<and> is_reserved r) rs,
      HongKongKept = count_of (\<lambda>r. \<not> IsMainlandChina (Info r) \<and> isHongKong (Info r)) rs,
      MacaoKept = count_of (\<lambda>r. \<not> IsMainlandChina (Info r) \<and> \<not> isHongKong (Info r) \<and> isMacao (Info r)) rs,
      TaiwanKept = count_of (\<lambda>r. \<not> IsMainlandChina (Info r) \<and> \<not> isHongKong (Info r) \<and>
                                   \<not> isMacao (Info r) \<and> isTaiwan (Info r)) rs,
      OtherKept = count_of (\<lambda>r. \<not> IsMainlandChina (Info r) \<and> \<not> isHongKong (Info r) \<and>
                                  \<not> isMacao (Info r) \<and> \<not> isTaiwan (Info r)) rs,
      ChinaCIDRsSaved = 0\<rparr>"

definition plus_stats :: "FilterStats \<Rightarrow> FilterStats \<Rightarrow> FilterStats" where
  "plus_stats a b =
     \<lparr>TotalRanges = TotalRanges a + TotalRanges b,
      ChinaFiltered = ChinaFiltered a + ChinaFiltered b,
      PrivateFiltered = PrivateFiltered a + PrivateFiltered b,
      HongKongKept = HongKongKept a + HongKongKept b,
      MacaoKept = MacaoKept a + MacaoKept b,
      TaiwanKept = TaiwanKept a + TaiwanKept b,
      OtherKept = OtherKept a + OtherKept b,
      ChinaCIDRsSaved = ChinaCIDRsSaved a + ChinaCIDRsSaved b\<rparr>"

text \<open>
  The counters that the collecting loop of \<open>FilterRangesParallel\<close> adds up: all but
  \<open>TotalRanges\<close>.
\<close>

definition acc_stats :: "FilterStats \<Rightarrow> FilterStats \<Rightarrow> FilterStats" where
  "acc_stats t s =
     t\<lparr>ChinaFiltered := ChinaFiltered t + ChinaFiltered s,
       PrivateFiltered := PrivateFiltered t + PrivateFiltered s,
       HongKongKept := HongKongKept t + HongKongKept s,
       MacaoKept := MacaoKept t + MacaoKept s,
       TaiwanKept := TaiwanKept t + TaiwanKept s,
       OtherKept := OtherKept t + OtherKept s,
       ChinaCIDRsSaved := ChinaCIDRsSaved t + ChinaCIDRsSaved s\<rparr>"

definition tally_saved :: "IPRange list \<Rightarrow> FilterStats" where
  "tally_saved rs = (tally rs)\<lparr>ChinaCIDRsSaved := int (length (filter china_kept rs))\<rparr>"

text \<open>An address in the 16-byte form of 8.8.8.8 and two ranges for the examples.\<close>

definition ip_8888_16 :: IP where
  "ip_8888_16 = [0, 0, 0, 0, 0, 0, 0, 0, 0, 0, 0xff, 0xff, 8, 8, 8, 8]"

definition range_of :: "IP \<Rightarrow> IP \<Rightarrow> string \<Rightarrow> string \<Rightarrow> IPRange" where
  "range_of s e label ty =
     \<lparr>CIDR_s = (s, 8 * int (length s)), StartIP = s, EndIP = e,
      Info = [label], RawData = label, Type_s = ty\<rparr>"

definition range_8888 :: IPRange where
  "range_8888 = range_of [8, 8, 8, 8] [8, 8, 8, 8] ''US'' ''IPv4''"

definition range_9999 :: IPRange where
  "range_9999 = range_of [9, 9, 9, 9] [9, 9, 9, 9] ''US'' ''IPv4''"

text \<open>Two results that agree up to the order of the two range lists.\<close>

definition same_up_to_order ::
  "IPRange list \<times> IPRange list \<times> FilterStats \<Rightarrow> IPRange list \<times> IPRange list \<times> FilterStats \<Rightarrow> bool" where
  "same_up_to_order x y =
     (case x of (f, c, s) \<Rightarrow> case y of (f', c', s') \<Rightarrow>
        mset f = mset f' \<and> mset c = mset c' \<and> s = s')"

subsection \<open>A small database\<close>

text \<open>
  One node. Its left pointer 1 is a leaf whose label, "US", lies at offset 8 of the
  body; its right pointer 100 is a leaf that resolves to offset 107, beyond the 12 bytes
  of the body.
\<close>

definition small_meta :: MetaData where
  "small_meta = \<lparr>Build = 0, IPVersion = 3, Languages = [], NodeCount = 1, TotalSize = 12,
                  Fields = [''country_name'']\<rparr>"

definition small_body :: Slice where
  "small_body = \<lparr>arr = [0, 0, 0, 1, 0, 0, 0, 100, 0, 2, 0x55, 0x53], len_s = 12\<rparr>"

definition small_db :: IPDBExtractor where
  "small_db = \<lparr>data = small_body, nodeCount = 1, v4offset = 1, meta = small_meta\<rparr>"

definition small_v4_range :: IPRange where
  "small_v4_range =
     \<lparr>CIDR_s = ([0, 0, 0, 0], 0), StartIP = [0, 0, 0, 0], EndIP = [255, 255, 255, 255],
      Info = [''US''], RawData = ''US'', Type_s = ''IPv4''\<rparr>"

definition small_v6_range :: IPRange where
  "small_v6_range =
     \<lparr>CIDR_s = (replicate 16 0, 1), StartIP = replicate 16 0, EndIP = 0x7f # replicate 15 0xff,
      Info = [''US''], RawData = ''US'', Type_s = ''IPv6''\<rparr>"

text \<open>A file whose length prefix is \<open>0xffffffff\<close>, in a buffer of 512 bytes.\<close>

definition bad_prefix_file :: Slice where
  "bad_prefix_file = \<lparr>arr = [0xff, 0xff, 0xff, 0xff, 0x7b, 0x7d] @ replicate 506 0, len_s = 6\<rparr>"

subsection \<open>Paths and ranges under the IPv4-mapped prefix\<close>

definition mapped_prefix :: "int list" where
  "mapped_prefix = replicate 80 0 @ replicate 16 1"

definition under_mapped_prefix :: "int list \<Rightarrow> bool" where
  "under_mapped_prefix path = (length path \<ge> 96 \<and> take 96 path = mapped_prefix)"

text \<open>
  A range lies under the prefix when its prefix length is at least 96 and its address
  begins with the 96 bits, that is with the twelve bytes of \<open>::ffff:0:0/96\<close>.
\<close>

definition range_under_mapped_prefix :: "IPRange \<Rightarrow> bool" where
  "range_under_mapped_prefix r = (snd (CIDR_s r) \<ge> 96 \<and> take 12 (StartIP r) = v4InV6Prefix)"

text \<open>Bit \<open>j\<close> of an address, counted from the most significant bit of byte 0.\<close>

definition path_bit :: "byte list \<Rightarrow> nat \<Rightarrow> bool" where
  "path_bit ip j = bit (ip ! (j div 8)) (7 - j mod 8)"

section \<open>Intervals, prefixes and covers\<close>

text \<open>
  An address belongs to the IPv4 family when \<open>To4\<close> is not nil (the code's own \<open>isIPv4\<close>),
  and to the IPv6 family when it has sixteen bytes and \<open>To4\<close> is nil.
\<close>

definition family_ip :: "bool \<Rightarrow> IP \<Rightarrow> bool" where
  "family_ip isIPv4 ip = (if isIPv4 then To4 ip \<noteq> None else length ip = 16 \<and> To4 ip = None)"

definition family_range :: "bool \<Rightarrow> IPRange \<Rightarrow> bool" where
  "family_range isIPv4 r = (family_ip isIPv4 (StartIP r) \<and> family_ip isIPv4 (EndIP r))"

text \<open>The integer of an address of a family: its four, respectively sixteen, bytes.\<close>

definition address_value :: "bool \<Rightarrow> IP \<Rightarrow> int" where
  "address_value isIPv4 ip = SetBytes (if isIPv4 then nil_or (To4 ip) else ip)"

definition range_interval :: "bool \<Rightarrow> IPRange \<Rightarrow> int set" where
  "range_interval isIPv4 r = {address_value isIPv4 (StartIP r) .. address_value isIPv4 (EndIP r)}"

definition range_nonempty :: "bool \<Rightarrow> IPRange \<Rightarrow> bool" where
  "range_nonempty isIPv4 r = (address_value isIPv4 (StartIP r) \<le> address_value isIPv4 (EndIP r))"

definition interval_of :: "DecimalRange \<Rightarrow> int set" where
  "interval_of d = {First d .. Last d}"

text \<open>A maximal interval of a set of integers: it lies in the set and its two neighbours do not.\<close>

definition is_maximal_interval :: "int set \<Rightarrow> int \<Rightarrow> int \<Rightarrow> bool" where
  "is_maximal_interval U lo hi = (lo \<le> hi \<and> {lo .. hi} \<subseteq> U \<and> lo - 1 \<notin> U \<and> hi + 1 \<notin> U)"

text \<open>The 16-byte form of an address as an integer, the key that \<open>compareIPs\<close> orders by.\<close>

definition key16 :: "IP \<Rightarrow> int" where
  "key16 ip = SetBytes (nil_or (To16 ip))"

text \<open>A sorting function that meets \<open>is_sort_Slice\<close>: the stable sort by \<open>key16\<close>.\<close>

definition sort_by_key16 :: sort_Slice where
  "sort_by_key16 cmp xs = Some (sort_key (\<lambda>r. key16 (StartIP r)) xs)"

text \<open>The ranges of scenario S4 and the intervals expected for them.\<close>

definition S4_input :: "IPRange list" where
  "S4_input =
     [range_of [1, 0, 0, 0] [1, 0, 0, 255] ''US'' ''IPv4'',
      range_of [1, 0, 1, 0] [1, 0, 1, 255] ''US'' ''IPv4'',
      range_of [1, 0, 3, 0] [1, 0, 3, 255] ''US'' ''IPv4'']"

definition S4_output :: "DecimalRange list" where
  "S4_output =
     [\<lparr>First = SetBytes [1, 0, 0, 0], Last = SetBytes [1, 0, 1, 255], IsIPv4 = True\<rparr>,
      \<lparr>First = SetBytes [1, 0, 3, 0], Last = SetBytes [1, 0, 3, 255], IsIPv4 = True\<rparr>]"

text \<open>
  \<open>net.IPMask.Size\<close> of the Go library (its \<open>simpleMaskLength\<close>): the number of leading
  one bits of a mask, or \<open>-1\<close> when the mask is not ones followed by zeros. \<open>lead_ones\<close>
  is the inner loop \<open>for v&0x80 != 0 { n++; v <<= 1 }\<close>, which ends after at most eight
  shifts.
\<close>

fun lead_ones :: "nat \<Rightarrow> byte \<Rightarrow> nat" where
  "lead_ones 0 v = 0"
| "lead_ones (Suc k) v = (if v AND 0x80 \<noteq> 0 then Suc (lead_ones k (push_bit 1 v)) else 0)"

fun simpleMaskLength :: "byte list \<Rightarrow> int" where
  "simpleMaskLength [] = 0"
| "simpleMaskLength (v # vs) =
     (if v = 0xff then (let n = simpleMaskLength vs in if n < 0 then - 1 else 8 + n)
      else (let k = lead_ones 8 v
            in if push_bit k v \<noteq> 0 \<or> list_ex (\<lambda>b. b \<noteq> 0) vs then - 1 else int k))"

text \<open>
  A CIDR \<open>P/L\<close> of width \<open>W\<close> as the pair \<open>(P, L)\<close>; it is valid when \<open>L \<le> W\<close> and \<open>P\<close> has
  zero host bits, and it denotes the interval from \<open>P\<close> to \<open>P + 2 ^ (W - L) - 1\<close>.
\<close>

definition valid_cidr :: "nat \<Rightarrow> int \<times> nat \<Rightarrow> bool" where
  "valid_cidr W c = (case c of (P, L) \<Rightarrow> L \<le> W \<and> 0 \<le> P \<and> P < 2 ^ W \<and> 2 ^ (W - L) dvd P)"

definition cidr_block :: "nat \<Rightarrow> int \<times> nat \<Rightarrow> int set" where
  "cidr_block W c = (case c of (P, L) \<Rightarrow> {P .. P + 2 ^ (W - L) - 1})"

text \<open>The prefix and prefix length of a CIDR that the code built.\<close>

definition cidr_pair :: "CIDR \<Rightarrow> int \<times> nat" where
  "cidr_pair c = (SetBytes (IP (Network c)), nat (simpleMaskLength (Mask (Network c))))"

definition cidr_interval :: "nat \<Rightarrow> CIDR \<Rightarrow> int set" where
  "cidr_interval W c = cidr_block W (cidr_pair c)"

definition width_of :: "bool \<Rightarrow> nat" where
  "width_of isIPv4 = nat (maxBits_of isIPv4)"

text \<open>A CIDR cover of an interval: finitely many valid CIDRs whose union is the interval.\<close>

definition is_cover :: "nat \<Rightarrow> int \<Rightarrow> int \<Rightarrow> (int \<times> nat) set \<Rightarrow> bool" where
  "is_cover W first lst C =
     (finite C \<and> (\<forall>c \<in> C. valid_cidr W c) \<and> (\<Union>c \<in> C. cidr_block W c) = {first .. lst})"

text \<open>The blocks of the normalizer's loop: the first address and the exponent of each round.\<close>

function normalize_blocks :: "bool \<Rightarrow> int \<Rightarrow> int \<Rightarrow> (int \<times> int) list" where
  "normalize_blocks isIPv4 first len =
     (if len > 0 then
        (let k = step_power isIPv4 first len
         in (first, k) # normalize_blocks isIPv4 (first + 2 ^ nat k) (len - 2 ^ nat k))
      else [])"
  by pat_completeness auto
termination
  by (relation "measure (\<lambda>(isIPv4, first, len). nat len)") auto

declare normalize_blocks.simps [simp del]

text \<open>
  The aggregator's state after one merge, the pair that the conversion loop builds for a
  range of a family, and the merging loop started on a list of pairs.
\<close>

definition merged :: "DecimalRange \<Rightarrow> DecimalRange \<Rightarrow> DecimalRange" where
  "merged lr c = (if Last c > Last lr then lr\<lparr>Last := Last c\<rparr> else lr)"

definition decimal_pair :: "bool \<Rightarrow> IPRange \<Rightarrow> DecimalRange" where
  "decimal_pair v r = \<lparr>First = address_value v (StartIP r), Last = address_value v (EndIP r), IsIPv4 = v\<rparr>"

definition aggregate_pairs :: "DecimalRange list \<Rightarrow> DecimalRange list" where
  "aggregate_pairs ps = (case ps of [] \<Rightarrow> [] | p # qs \<Rightarrow> aggregate_loop p qs [])"

text \<open>
  What one round of the normalizer's loop guarantees for its block \<open>(s, k)\<close> when the
  interval ends before \<open>E\<close>: the exponent is within the width, \<open>2 ^ k\<close> divides \<open>s\<close>, the
  block ends before \<open>E\<close>, and the next larger aligned block would not.
\<close>

definition greedy_block :: "nat \<Rightarrow> int \<Rightarrow> int \<times> int \<Rightarrow> bool" where
  "greedy_block W E b =
     (case b of (s, k) \<Rightarrow>
        0 \<le> k \<and> nat k \<le> W \<and> 0 \<le> s \<and> 2 ^ nat k dvd s \<and> s + 2 ^ nat k \<le> E \<and>
        (2 ^ Suc (nat k) dvd s \<longrightarrow> E - s < 2 ^ Suc (nat k)))"

text \<open>No aligned block that starts before \<open>s\<close> and contains \<open>s\<close> lies within \<open>first0 .. E - 1\<close>.\<close>

definition no_left_block :: "int \<Rightarrow> int \<Rightarrow> int \<Rightarrow> bool" where
  "no_left_block first0 E s =
     (\<forall>m P. 2 ^ m dvd P \<and> P < s \<and> s < P + 2 ^ m \<longrightarrow> P < first0 \<or> E < P + 2 ^ m)"

text \<open>The CIDR pair of a block, the blocks of one aggregated range, and the order of a CIDR list.\<close>

definition block_pair :: "nat \<Rightarrow> int \<times> int \<Rightarrow> int \<times> nat" where
  "block_pair W b = (fst b, W - nat (snd b))"

definition blocks_of :: "bool \<Rightarrow> DecimalRange \<Rightarrow> (int \<times> int) list" where
  "blocks_of v d = normalize_blocks v (First d) (Last d - First d + 1)"

text \<open>
  The intervals of a CIDR list are pairwise disjoint and the first addresses ascend
  strictly.
\<close>

definition ascending_disjoint :: "nat \<Rightarrow> CIDR list \<Rightarrow> bool" where
  "ascending_disjoint W cs =
     (\<forall>i < length cs. \<forall>j < length cs.
        (i \<noteq> j \<longrightarrow> cidr_interval W (cs ! i) \<inter> cidr_interval W (cs ! j) = {}) \<and>
        (i < j \<longrightarrow> fst (cidr_pair (cs ! i)) < fst (cidr_pair (cs ! j))))"

text \<open>The interval of scenario S3 and the CIDRs that the normalizer gives for it.\<close>

definition S3_range :: DecimalRange where
  "S3_range = \<lparr>First = 3221225989, Last = 3221225994, IsIPv4 = True\<rparr>"

definition S3_blocks :: "CIDR list" where
  "S3_blocks =
     [mkCIDR [192, 0, 2, 5] [255, 255, 255, 255] [192, 0, 2, 5],
      mkCIDR [192, 0, 2, 6] [255, 255, 255, 254] [192, 0, 2, 7],
      mkCIDR [192, 0, 2, 8] [255, 255, 255, 254] [192, 0, 2, 9],
      mkCIDR [192, 0, 2, 10] [255, 255, 255, 255] [192, 0, 2, 10]]"

text \<open>
  Two IPv6 ranges as the extractor builds them for the paths of 80 zero bits followed by
  0 and by 1: \<open>::/81\<close> and \<open>::8000:0:0/81\<close>. The last address of the second is
  \<open>::ffff:ffff:ffff\<close>, whose first twelve bytes are those of an IPv4-mapped address.
\<close>

definition range_low81 :: IPRange where
  "range_low81 =
     \<lparr>CIDR_s = ([0, 0, 0, 0, 0, 0, 0, 0, 0, 0, 0, 0, 0, 0, 0, 0], 81),
      StartIP = [0, 0, 0, 0, 0, 0, 0, 0, 0, 0, 0, 0, 0, 0, 0, 0],
      EndIP = [0, 0, 0, 0, 0, 0, 0, 0, 0, 0, 0x7f, 0xff, 0xff, 0xff, 0xff, 0xff],
      Info = [''US''], RawData = ''US'', Type_s = ''IPv6''\<rparr>"

definition range_high81 :: IPRange where
  "range_high81 =
     \<lparr>CIDR_s = ([0, 0, 0, 0, 0, 0, 0, 0, 0, 0, 0x80, 0, 0, 0, 0, 0], 81),
      StartIP = [0, 0, 0, 0, 0, 0, 0, 0, 0, 0, 0x80, 0, 0, 0, 0, 0],
      EndIP = [0, 0, 0, 0, 0, 0, 0, 0, 0, 0, 0xff, 0xff, 0xff, 0xff, 0xff, 0xff],
      Info = [''US''], RawData = ''US'', Type_s = ''IPv6''\<rparr>"









text \<open>
  The first address of a range belongs to the family of its list; in an IPv4 list the
  last address is an IPv4 address too.
\<close>

definition first_of_family :: "bool \<Rightarrow> IPRange \<Rightarrow> bool" where
  "first_of_family isIPv4 r =
     (family_ip isIPv4 (StartIP r) \<and> (isIPv4 \<longrightarrow> To4 (EndIP r) \<noteq> None))"

section \<open>Unfolding the loops\<close>

lemma mask_bytes_unfold:
  "0 < l \<Longrightarrow> mask_bytes n l =
     (if n \<ge> 8 then 0xff # mask_bytes (n - 8) (l - 1)
      else NOT (drop_bit n 0xff) # mask_bytes 0 (l - 1))"
  by (cases l) auto

lemmas cidr_eval = createCIDRFromDecimalRange_def decimalToIP_def Bytes_def CIDRMask_def
  IP_Mask_def calculateNetworkEndIP_def Let_def Bytes_nat.simps mask_bytes_unfold

lemma normalize_loop_unfold:
  "normalize_loop isIPv4 first len acc =
     (if len > 0 then
        (case createCIDRFromDecimalRange first (maxBits_of isIPv4 - step_power isIPv4 first len) isIPv4 of
           None \<Rightarrow> None
         | Some cidr \<Rightarrow>
             normalize_loop isIPv4 (first + 2 ^ nat (step_power isIPv4 first len))
               (len - 2 ^ nat (step_power isIPv4 first len)) (acc @ [cidr]))
      else Some acc)"
  apply (subst normalize_loop.simps)
  unfolding step_power_def maxBits_of_def Let_def
  apply (rule refl)
  done

lemma normalize_loop_step:
  assumes "0 < len" and "step_power isIPv4 first len = m"
    and "createCIDRFromDecimalRange first (maxBits_of isIPv4 - m) isIPv4 = Some c"
  shows "normalize_loop isIPv4 first len acc =
         normalize_loop isIPv4 (first + 2 ^ nat m) (len - 2 ^ nat m) (acc @ [c])"
  by (subst normalize_loop_unfold) (simp add: assms)

lemma normalize_loop_done: "len \<le> 0 \<Longrightarrow> normalize_loop isIPv4 first len acc = Some acc"
  by (subst normalize_loop_unfold) simp

lemmas step_eval = step_power_def maxBits_of_def bigIntLog2_def compute_bitlen
  bigIntTrailingZeros_def tz_loop.simps

section \<open>The normalizer on the interval 192.0.2.5 to 192.0.2.10\<close>

lemma S3_loop:
  "normalize_loop True 3221225989 6 [] =
     Some [mkCIDR [192, 0, 2, 5] [255, 255, 255, 255] [192, 0, 2, 5],
           mkCIDR [192, 0, 2, 6] [255, 255, 255, 254] [192, 0, 2, 7],
           mkCIDR [192, 0, 2, 8] [255, 255, 255, 254] [192, 0, 2, 9],
           mkCIDR [192, 0, 2, 10] [255, 255, 255, 255] [192, 0, 2, 10]]"
proof -
  have s1: "normalize_loop True 3221225989 6 [] =
            normalize_loop True 3221225990 5 [mkCIDR [192, 0, 2, 5] [255, 255, 255, 255] [192, 0, 2, 5]]"
    by (subst normalize_loop_step [where m = 0])
       (simp_all add: step_eval cidr_eval mkCIDR_def)
  have s2: "normalize_loop True 3221225990 5 acc =
            normalize_loop True 3221225992 3 (acc @ [mkCIDR [192, 0, 2, 6] [255, 255, 255, 254] [192, 0, 2, 7]])" for acc
    by (subst normalize_loop_step [where m = 1])
       (simp_all add: step_eval cidr_eval mkCIDR_def)
  have s3: "normalize_loop True 3221225992 3 acc =
            normalize_loop True 3221225994 1 (acc @ [mkCIDR [192, 0, 2, 8] [255, 255, 255, 254] [192, 0, 2, 9]])" for acc
    by (subst normalize_loop_step [where m = 1])
       (simp_all add: step_eval cidr_eval mkCIDR_def)
  have s4: "normalize_loop True 3221225994 1 acc =
            normalize_loop True 3221225995 0 (acc @ [mkCIDR [192, 0, 2, 10] [255, 255, 255, 255] [192, 0, 2, 10]])" for acc
    by (subst normalize_loop_step [where m = 0])
       (simp_all add: step_eval cidr_eval mkCIDR_def)
  show ?thesis
    by (simp add: s1 s2 s3 s4 normalize_loop_done)
qed

text \<open>
  C5, as the specification states it: the normalizer on the IPv4 interval from 192.0.2.5
  to 192.0.2.10 gives 192.0.2.5/32, 192.0.2.6/31, 192.0.2.8/30. It does not: the third
  block would reach 192.0.2.11.
\<close>

theorem C5_S3_as_stated_fails:
  "rustStyleNormalized [\<lparr>First = 3221225989, Last = 3221225994, IsIPv4 = True\<rparr>] True \<noteq>
     Some [mkCIDR [192, 0, 2, 5] [255, 255, 255, 255] [192, 0, 2, 5],
           mkCIDR [192, 0, 2, 6] [255, 255, 255, 254] [192, 0, 2, 7],
           mkCIDR [192, 0, 2, 8] [255, 255, 255, 252] [192, 0, 2, 11]]"
  by (simp add: rustStyleNormalized_def S3_loop)

text \<open>
  C5, amended: the normalizer on the IPv4 interval from 192.0.2.5 to 192.0.2.10 gives
  exactly the four blocks 192.0.2.5/32, 192.0.2.6/31, 192.0.2.8/31 and 192.0.2.10/32.
\<close>

theorem C5_S3_normalizer_output:
  "rustStyleNormalized [\<lparr>First = 3221225989, Last = 3221225994, IsIPv4 = True\<rparr>] True =
     Some [mkCIDR [192, 0, 2, 5] [255, 255, 255, 255] [192, 0, 2, 5],
           mkCIDR [192, 0, 2, 6] [255, 255, 255, 254] [192, 0, 2, 7],
           mkCIDR [192, 0, 2, 8] [255, 255, 255, 254] [192, 0, 2, 9],
           mkCIDR [192, 0, 2, 10] [255, 255, 255, 255] [192, 0, 2, 10]]"
  by (simp add: rustStyleNormalized_def S3_loop)

section \<open>The unused arguments of SmartMergeNonChinaCIDRs\<close>

text \<open>
  C10: the result of \<open>SmartMergeNonChinaCIDRs\<close> depends on \<open>nonChinaIPv4\<close> and
  \<open>nonChinaIPv6\<close> only: two calls that differ in \<open>allIPv4\<close> and \<open>allIPv6\<close> alone
  return the same two CIDR lists.
\<close>

theorem C10_unused_arguments:
  "SmartMergeNonChinaCIDRs sortSlice allIPv4 allIPv6 nonChinaIPv4 nonChinaIPv6 =
   SmartMergeNonChinaCIDRs sortSlice allIPv4' allIPv6' nonChinaIPv4 nonChinaIPv6"
  by (simp add: SmartMergeNonChinaCIDRs_def)

section \<open>Bytes and integers\<close>

lemma bit_bound_int:
  assumes "0 \<le> (x::int)" "x < 2 ^ k" "bit x n" shows "n < k"
proof (rule ccontr)
  assume "\<not> n < k"
  then have "(2::int) ^ k \<le> 2 ^ n" by (simp add: power_increasing)
  with assms have "x < 2 ^ n" by linarith
  with assms have "x div 2 ^ n = 0" by (intro div_pos_pos_trivial) auto
  with assms(3) show False by (simp add: bit_int_def)
qed

lemma int_and_high:
  assumes "0 \<le> (x::int)" "x < 2 ^ (j + k)"
  shows "x AND (push_bit j (mask k)) = (x div 2 ^ j) * 2 ^ j"
proof -
  have e: "(x div 2 ^ j) * 2 ^ j = push_bit j (drop_bit j x)"
    by (simp add: push_bit_eq_mult drop_bit_eq_div)
  show ?thesis
    unfolding e
  proof (rule bit_eqI)
    fix n
    have "bit x n \<Longrightarrow> n < j + k" by (rule bit_bound_int[OF assms])
    then show "bit (x AND push_bit j (mask k)) n = bit (push_bit j (drop_bit j x)) n"
      by (auto simp: bit_simps)
  qed
qed

lemma byte_and_c0: "((b::8 word) AND 0xc0 = 0x80) \<longleftrightarrow> (128 \<le> uint b \<and> uint b \<le> 191)"
proof -
  have r: "0 \<le> uint b" "uint b < 2 ^ (6 + 2)" using uint_bounded[of b] by simp_all
  have "uint (b AND 0xc0) = uint b AND push_bit 6 (mask 2)"
    by (simp add: uint_and mask_eq_exp_minus_1 push_bit_eq_mult)
  also have "\<dots> = (uint b div 2 ^ 6) * 2 ^ 6" by (rule int_and_high[OF r])
  finally have "(b AND 0xc0 = 0x80) \<longleftrightarrow> (uint b div 64) * 64 = 128"
    by (simp add: word_uint_eq_iff)
  then show ?thesis using r by auto
qed

lemma byte_and_fe: "((b::8 word) AND 0xfe = 0xfc) \<longleftrightarrow> (252 \<le> uint b \<and> uint b \<le> 253)"
proof -
  have r: "0 \<le> uint b" "uint b < 2 ^ (1 + 7)" using uint_bounded[of b] by simp_all
  have "uint (b AND 0xfe) = uint b AND push_bit 1 (mask 7)"
    by (simp add: uint_and mask_eq_exp_minus_1 push_bit_eq_mult)
  also have "\<dots> = (uint b div 2 ^ 1) * 2 ^ 1" by (rule int_and_high[OF r])
  finally have "(b AND 0xfe = 0xfc) \<longleftrightarrow> (uint b div 2) * 2 = 252"
    by (simp add: word_uint_eq_iff)
  then show ?thesis using r by auto
qed

lemma block_iff:
  fixes K q R a n v :: int
  assumes K: "0 < K" and R: "0 \<le> R" "R < K" and v: "v = q * K + R"
  shows "(a * K \<le> v \<and> v < a * K + n * K) \<longleftrightarrow> (a \<le> q \<and> q < a + n)"
proof
  assume h: "a * K \<le> v \<and> v < a * K + n * K"
  have "a * K < (q + 1) * K" using h R v by (simp add: algebra_simps)
  then have 1: "a < q + 1" using K by (simp add: mult_less_cancel_right)
  have "q * K < (a + n) * K" using h R v by (simp add: algebra_simps)
  then have 2: "q < a + n" using K by (simp add: mult_less_cancel_right)
  from 1 2 show "a \<le> q \<and> q < a + n" by simp
next
  assume h: "a \<le> q \<and> q < a + n"
  then have 1: "a * K \<le> q * K" using K by (simp add: mult_right_mono)
  from h have 2: "(q + 1) * K \<le> (a + n) * K" using K by (intro mult_right_mono) auto
  have 3: "(q + 1) * K = q * K + K" "(a + n) * K = a * K + n * K" by (simp_all add: algebra_simps)
  show "a * K \<le> v \<and> v < a * K + n * K"
    using 1 2 R unfolding v 3 by linarith
qed

lemma v4_blocks_int:
  fixes V A B R2 R3 :: int
  assumes bnd: "0 \<le> A" "A < 256" "0 \<le> B" "B < 256"
    and R2: "0 \<le> R2" "R2 < 65536" and R3: "0 \<le> R3" "R3 < 16777216"
    and v: "V = (A * 256 + B) * 65536 + R2" "V = A * 16777216 + R3"
  shows "(0 \<le> V \<and> V < 16777216) \<longleftrightarrow> A = 0"
    and "(167772160 \<le> V \<and> V < 184549376) \<longleftrightarrow> A = 10"
    and "(2130706432 \<le> V \<and> V < 2147483648) \<longleftrightarrow> A = 127"
    and "(2851995648 \<le> V \<and> V < 2852061184) \<longleftrightarrow> A = 169 \<and> B = 254"
    and "(2886729728 \<le> V \<and> V < 2887778304) \<longleftrightarrow> A = 172 \<and> 16 \<le> B \<and> B \<le> 31"
    and "(3232235520 \<le> V \<and> V < 3232301056) \<longleftrightarrow> A = 192 \<and> B = 168"
    and "(3758096384 \<le> V \<and> V < 4026531840) \<longleftrightarrow> 224 \<le> A \<and> A \<le> 239"
    and "(4026531840 \<le> V \<and> V < 4294967296) \<longleftrightarrow> 240 \<le> A"
proof -
  define Q where "Q = A * 256 + B"
  have v1: "V = Q * 65536 + R2" by (simp add: v(1) Q_def)
  note b16 = block_iff[where K = 65536 and R = R2 and q = Q and v = V, OF _ R2 v1]
  note b24 = block_iff[where K = 16777216 and R = R3 and q = "A" and v = V, OF _ R3 v(2)]
  note b8 = block_iff[where K = 256 and R = B and q = A and v = Q and n = 1, OF _ bnd(3,4) Q_def]
  show "(0 \<le> V \<and> V < 16777216) \<longleftrightarrow> A = 0"
  proof -
    have "(0 \<le> V \<and> V < 16777216) \<longleftrightarrow> (0 \<le> A \<and> A < 1)"
      using b24[of "0" 1] by simp
    also have "\<dots> \<longleftrightarrow> (A = 0)" using bnd by auto
    finally show ?thesis .
  qed
  show "(167772160 \<le> V \<and> V < 184549376) \<longleftrightarrow> A = 10"
  proof -
    have "(167772160 \<le> V \<and> V < 184549376) \<longleftrightarrow> (10 \<le> A \<and> A < 11)"
      using b24[of "10" 1] by simp
    also have "\<dots> \<longleftrightarrow> (A = 10)" using bnd by auto
    finally show ?thesis .
  qed
  show "(2130706432 \<le> V \<and> V < 2147483648) \<longleftrightarrow> A = 127"
  proof -
    have "(2130706432 \<le> V \<and> V < 2147483648) \<longleftrightarrow> (127 \<le> A \<and> A < 128)"
      using b24[of "127" 1] by simp
    also have "\<dots> \<longleftrightarrow> (A = 127)" using bnd by auto
    finally show ?thesis .
  qed
  show "(2851995648 \<le> V \<and> V < 2852061184) \<longleftrightarrow> A = 169 \<and> B = 254"
  proof -
    have "(2851995648 \<le> V \<and> V < 2852061184) \<longleftrightarrow> (43518 \<le> Q \<and> Q < 43519)"
      using b16[of "0xA9FE" 1] by simp
    also have "\<dots> \<longleftrightarrow> (A = 169 \<and> B = 254)" using b8[of 169] bnd unfolding Q_def by auto
    finally show ?thesis .
  qed
  show "(2886729728 \<le> V \<and> V < 2887778304) \<longleftrightarrow> A = 172 \<and> 16 \<le> B \<and> B \<le> 31"
  proof -
    have "(2886729728 \<le> V \<and> V < 2887778304) \<longleftrightarrow> (44048 \<le> Q \<and> Q < 44064)"
      using b16[of "0xAC10" 16] by simp
    also have "\<dots> \<longleftrightarrow> (A = 172 \<and> 16 \<le> B \<and> B \<le> 31)" using b8[of 172] bnd unfolding Q_def by auto
    finally show ?thesis .
  qed
  show "(3232235520 \<le> V \<and> V < 3232301056) \<longleftrightarrow> A = 192 \<and> B = 168"
  proof -
    have "(3232235520 \<le> V \<and> V < 3232301056) \<longleftrightarrow> (49320 \<le> Q \<and> Q < 49321)"
      using b16[of "0xC0A8" 1] by simp
    also have "\<dots> \<longleftrightarrow> (A = 192 \<and> B = 168)" using b8[of 192] bnd unfolding Q_def by auto
    finally show ?thesis .
  qed
  show "(3758096384 \<le> V \<and> V < 4026531840) \<longleftrightarrow> 224 \<le> A \<and> A \<le> 239"
  proof -
    have "(3758096384 \<le> V \<and> V < 4026531840) \<longleftrightarrow> (224 \<le> A \<and> A < 240)"
      using b24[of "224" 16] by simp
    also have "\<dots> \<longleftrightarrow> (224 \<le> A \<and> A \<le> 239)" using bnd by auto
    finally show ?thesis .
  qed
  show "(4026531840 \<le> V \<and> V < 4294967296) \<longleftrightarrow> 240 \<le> A"
  proof -
    have "(4026531840 \<le> V \<and> V < 4294967296) \<longleftrightarrow> (240 \<le> A \<and> A < 256)"
      using b24[of "240" 16] by simp
    also have "\<dots> \<longleftrightarrow> (240 \<le> A)" using bnd by auto
    finally show ?thesis .
  qed
qed

lemma v6_blocks_int:
  fixes V A B R K :: int
  assumes K: "0 < K" and bnd: "0 \<le> A" "A < 256" "0 \<le> B" "B < 256"
    and R: "0 \<le> R" "R < K"
    and v: "V = (A * 256 + B) * K + R"
  shows "(65152 * K \<le> V \<and> V < 65152 * K + 64 * K) \<longleftrightarrow> A = 254 \<and> 128 \<le> B \<and> B \<le> 191"
    and "(64512 * K \<le> V \<and> V < 64512 * K + 512 * K) \<longleftrightarrow> 252 \<le> A \<and> A \<le> 253"
    and "(65280 * K \<le> V \<and> V < 65280 * K + 256 * K) \<longleftrightarrow> A = 255"
proof -
  define Q where "Q = A * 256 + B"
  have v1: "V = Q * K + R" by (simp add: v Q_def)
  note b16 = block_iff[where K = K and R = R and q = Q and v = V, OF K R v1]
  note b8 = block_iff[where K = 256 and R = B and q = A and v = Q, OF _ bnd(3,4) Q_def]
  show "(65152 * K \<le> V \<and> V < 65152 * K + 64 * K) \<longleftrightarrow> A = 254 \<and> 128 \<le> B \<and> B \<le> 191"
  proof -
    have "(65152 * K \<le> V \<and> V < 65152 * K + 64 * K) \<longleftrightarrow> (65152 \<le> Q \<and> Q < 65216)"
      using b16[of 65152 64] by simp
    also have "\<dots> \<longleftrightarrow> (A = 254 \<and> 128 \<le> B \<and> B \<le> 191)"
      using b8[of 254 1] bnd unfolding Q_def by auto
    finally show ?thesis .
  qed
  show "(64512 * K \<le> V \<and> V < 64512 * K + 512 * K) \<longleftrightarrow> 252 \<le> A \<and> A \<le> 253"
  proof -
    have "(64512 * K \<le> V \<and> V < 64512 * K + 512 * K) \<longleftrightarrow> (64512 \<le> Q \<and> Q < 65024)"
      using b16[of 64512 512] by simp
    also have "\<dots> \<longleftrightarrow> (252 \<le> A \<and> A \<le> 253)"
      using b8[of 252 2] by auto
    finally show ?thesis .
  qed
  show "(65280 * K \<le> V \<and> V < 65280 * K + 256 * K) \<longleftrightarrow> A = 255"
  proof -
    have "(65280 * K \<le> V \<and> V < 65280 * K + 256 * K) \<longleftrightarrow> (65280 \<le> Q \<and> Q < 65536)"
      using b16[of 65280 256] by simp
    also have "\<dots> \<longleftrightarrow> (A = 255)"
      using b8[of 255 1] bnd by auto
    finally show ?thesis .
  qed
qed

section \<open>Labels\<close>

lemma strings_HasPrefix_iff: "strings_HasPrefix s p \<longleftrightarrow> (\<exists>q. s = p @ q)"
  by (induction s p rule: strings_HasPrefix.induct) auto

lemma strings_Contains_iff: "strings_Contains s m \<longleftrightarrow> spec_contains s m"
proof (induction s)
  case Nil
  then show ?case by (auto simp: spec_contains_def)
next
  case (Cons c cs)
  show ?case
  proof
    assume "strings_Contains (c # cs) m"
    then consider "strings_HasPrefix (c # cs) m" | "strings_Contains cs m" by auto
    then show "spec_contains (c # cs) m"
    proof cases
      case 1
      then obtain q where "c # cs = m @ q" by (auto simp: strings_HasPrefix_iff)
      then have "c # cs = [] @ m @ q" by simp
      then show ?thesis unfolding spec_contains_def by blast
    next
      case 2
      with Cons obtain p q where "cs = p @ m @ q" by (auto simp: spec_contains_def)
      then have "c # cs = (c # p) @ m @ q" by simp
      then show ?thesis unfolding spec_contains_def by blast
    qed
  next
    assume "spec_contains (c # cs) m"
    then obtain p q where pq: "c # cs = p @ m @ q" by (auto simp: spec_contains_def)
    show "strings_Contains (c # cs) m"
    proof (cases p)
      case Nil
      with pq have "strings_HasPrefix (c # cs) m" by (auto simp: strings_HasPrefix_iff)
      then show ?thesis by simp
    next
      case (Cons a p')
      with pq have "cs = p' @ m @ q" by simp
      then have "spec_contains cs m" unfolding spec_contains_def by blast
      with Cons.IH show ?thesis by simp
    qed
  qed
qed

lemma IsMainlandChina_spec: "IsMainlandChina info \<longleftrightarrow> spec_mainland_label info"
  by (auto simp: IsMainlandChina_def spec_mainland_label_def spec_region_markers_def
      strings_Contains_iff is_China_name_def countryName_of_def regionName_of_def Let_def
      str_Zhongguo_def)

section \<open>The reserved blocks\<close>

lemma SetBytes_bounds: "0 \<le> SetBytes bs \<and> SetBytes bs < 256 ^ length bs"
proof (induction bs)
  case Nil
  then show ?case by simp
next
  case (Cons b bs)
  have b: "0 \<le> uint b" "uint b \<le> 255" using uint_bounded[of b] by simp_all
  define X :: int where "X = 256 ^ length bs"
  have 1: "uint b * X \<le> 255 * X"
    using b by (intro mult_right_mono) (auto simp: X_def)
  have 2: "0 \<le> uint b * X" using b by (simp add: X_def)
  have 3: "SetBytes (b # bs) = uint b * X + SetBytes bs" "(256::int) ^ length (b # bs) = 256 * X"
    by (simp_all add: X_def)
  from Cons 1 2 show ?case unfolding 3 X_def[symmetric] by linarith
qed

lemma SetBytes_nonneg: "0 \<le> SetBytes bs"
  using SetBytes_bounds by blast

lemma SetBytes_less: "SetBytes bs < 256 ^ length bs"
  using SetBytes_bounds by blast

lemma SetBytes_inj: "length xs = length ys \<Longrightarrow> SetBytes xs = SetBytes ys \<Longrightarrow> xs = ys"
proof (induction xs ys rule: list_induct2)
  case Nil
  then show ?case by simp
next
  case (Cons x xs y ys)
  define X :: int where "X = 256 ^ length xs"
  have X: "0 < X" by (simp add: X_def)
  have e: "uint x * X + SetBytes xs = uint y * X + SetBytes ys"
    using Cons by (simp add: X_def)
  have bx: "0 \<le> SetBytes xs" "SetBytes xs < X" "0 \<le> SetBytes ys" "SetBytes ys < X"
    using SetBytes_bounds[of xs] SetBytes_bounds[of ys] Cons.hyps by (simp_all add: X_def)
  have "(uint x * X + SetBytes xs) div X = uint x" "(uint y * X + SetBytes ys) div X = uint y"
    using bx X by (simp_all add: div_pos_pos_trivial)
  with e have u: "uint x = uint y" by simp
  with e have "SetBytes xs = SetBytes ys" by simp
  with Cons.IH u show ?case by (simp add: word_uint_eq_iff)
qed

lemma list4: "length ip = 4 \<Longrightarrow> \<exists>a b c d. ip = [a, b, c, d]"
  by (cases ip; simp; cases "tl ip"; simp; cases "tl (tl ip)"; simp; cases "tl (tl (tl ip))"; simp; force)

lemma v4_spec_blocks:
  fixes a b c d :: byte
  shows "spec_in_reserved_block [a, b, c, d] \<longleftrightarrow>
       (uint a = 0 \<or> uint a = 10 \<or> uint a = 127 \<or> (uint a = 169 \<and> uint b = 254) \<or>
        (uint a = 172 \<and> 16 \<le> uint b \<and> uint b \<le> 31) \<or>
        (uint a = 192 \<and> uint b = 168) \<or> (224 \<le> uint a \<and> uint a \<le> 239) \<or> 240 \<le> uint a)"
proof -
  define V where "V = SetBytes [a, b, c, d]"
  define R2 R3 where "R2 = uint c * 256 + uint d"
    and "R3 = uint b * 65536 + uint c * 256 + uint d"
  have bnd: "0 \<le> uint a" "uint a < 256" "0 \<le> uint b" "uint b < 256"
    "0 \<le> uint c" "uint c < 256" "0 \<le> uint d" "uint d < 256"
    using uint_bounded[of a] uint_bounded[of b] uint_bounded[of c] uint_bounded[of d]
    by simp_all
  have R2: "0 \<le> R2" "R2 < 65536" using bnd by (simp_all add: R2_def)
  have R3: "0 \<le> R3" "R3 < 16777216" using bnd by (simp_all add: R3_def)
  have v: "V = (uint a * 256 + uint b) * 65536 + R2" "V = uint a * 16777216 + R3"
    by (simp_all add: V_def R2_def R3_def)
  note blocks = v4_blocks_int[OF bnd(1-4) R2 R3 v]
  have "spec_in_reserved_block [a, b, c, d] \<longleftrightarrow>
          ((0 \<le> V \<and> V < 16777216) \<or> (167772160 \<le> V \<and> V < 184549376) \<or>
           (2130706432 \<le> V \<and> V < 2147483648) \<or> (2851995648 \<le> V \<and> V < 2852061184) \<or>
           (2886729728 \<le> V \<and> V < 2887778304) \<or> (3232235520 \<le> V \<and> V < 3232301056) \<or>
           (3758096384 \<le> V \<and> V < 4026531840) \<or> (4026531840 \<le> V \<and> V < 4294967296))"
    unfolding V_def
    by (simp add: spec_in_reserved_block_def spec_reserved_blocks_def spec_in_block_def
        ipToDecimal_def To4_def maxBits_of_def del: SetBytes.simps)
  then show ?thesis unfolding blocks by blast
qed

lemma v4_reserved:
  "IsPrivateOrReserved [a, b, c, d] e = Some (spec_in_reserved_block [a, b, c, d])"
  unfolding v4_spec_blocks
  by (auto simp: IsPrivateOrReserved_def To4_def word_le_def word_uint_eq_iff)

lemma SetBytes_zero_iff: "SetBytes bs = 0 \<longleftrightarrow> bs = replicate (length bs) 0"
proof -
  have z: "SetBytes (replicate n 0) = 0" for n by (induction n) auto
  show ?thesis
  proof
    assume "SetBytes bs = 0"
    then have "SetBytes bs = SetBytes (replicate (length bs) 0)" by (simp add: z)
    then show "bs = replicate (length bs) 0" by (intro SetBytes_inj) auto
  next
    assume "bs = replicate (length bs) 0"
    then show "SetBytes bs = 0" by (metis z)
  qed
qed

lemma SetBytes_loopback: "SetBytes IPv6loopback = 1"
  by (simp add: IPv6loopback_def numeral_eq_Suc)

lemma v6_spec_blocks:
  fixes b0 b1 :: byte
  assumes len: "length rest = 14" and nm: "take 12 (b0 # b1 # rest) \<noteq> v4InV6Prefix"
  shows "spec_in_reserved_block (b0 # b1 # rest) \<longleftrightarrow>
       (b0 # b1 # rest = IPv6loopback \<or> (uint b0 = 254 \<and> 128 \<le> uint b1 \<and> uint b1 \<le> 191) \<or>
        (252 \<le> uint b0 \<and> uint b0 \<le> 253) \<or> uint b0 = 255 \<or> b0 # b1 # rest = IPv6unspecified)"
proof -
  define ip where "ip = b0 # b1 # rest"
  define V where "V = SetBytes ip"
  define K :: int where "K = 256 ^ 14"
  define R where "R = SetBytes rest"
  have l16: "length ip = 16" by (simp add: ip_def len)
  have bnd: "0 \<le> uint b0" "uint b0 < 256" "0 \<le> uint b1" "uint b1 < 256"
    using uint_bounded[of b0] uint_bounded[of b1] by simp_all
  have K: "0 < K" by (simp add: K_def)
  have R: "0 \<le> R" "R < K" using SetBytes_bounds[of rest] by (simp_all add: R_def K_def len)
  have v: "V = (uint b0 * 256 + uint b1) * K + R"
    by (simp add: V_def ip_def R_def K_def len algebra_simps)
  note blocks = v6_blocks_int[OF K bnd R v]
  have to4: "To4 ip = None" using nm l16 by (simp add: To4_def ip_def)
  have dec: "ipToDecimal ip = Some V" using to4 l16 by (simp add: ipToDecimal_def To16_def V_def)
  have one: "V = 1 \<longleftrightarrow> ip = IPv6loopback"
  proof
    assume "V = 1"
    then have "SetBytes ip = SetBytes IPv6loopback" by (simp add: V_def SetBytes_loopback)
    moreover have "length ip = length IPv6loopback" by (simp add: l16 IPv6loopback_def)
    ultimately show "ip = IPv6loopback" by (intro SetBytes_inj)
  next
    assume "ip = IPv6loopback"
    then show "V = 1" by (simp add: V_def SetBytes_loopback)
  qed
  have zero: "V = 0 \<longleftrightarrow> ip = IPv6unspecified"
    using SetBytes_zero_iff[of ip] l16 by (simp add: V_def IPv6unspecified_def)
  have "spec_in_reserved_block ip \<longleftrightarrow>
          (V = 1 \<or> (65152 * K \<le> V \<and> V < 65152 * K + 64 * K) \<or>
           (64512 * K \<le> V \<and> V < 64512 * K + 512 * K) \<or>
           (65280 * K \<le> V \<and> V < 65280 * K + 256 * K) \<or> V = 0)"
    by (auto simp: spec_in_reserved_block_def spec_reserved_blocks_def spec_in_block_def
        dec to4 maxBits_of_def K_def)
  then show ?thesis unfolding blocks one zero ip_def by blast
qed

lemma list16:
  assumes "length ip = 16"
  obtains b0 b1 rest where "ip = b0 # b1 # rest" "length rest = 14"
proof -
  from assms obtain b0 t where 1: "ip = b0 # t" by (cases ip) auto
  with assms obtain b1 rest where 2: "t = b1 # rest" by (cases t) auto
  from 1 2 assms have "length rest = 14" by simp
  with 1 2 that show thesis by blast
qed

lemma v6_reserved:
  assumes len: "length ip = 16" and nm: "take 12 ip \<noteq> v4InV6Prefix"
  shows "IsPrivateOrReserved ip e = Some (spec_in_reserved_block ip)"
proof -
  from len obtain b0 b1 rest where ip: "ip = b0 # b1 # rest" and r: "length rest = 14"
    by (rule list16)
  have to4: "To4 ip = None" using nm len by (simp add: To4_def)
  have lb: "IsLoopback ip \<longleftrightarrow> ip = IPv6loopback"
    using len by (simp add: IsLoopback_def to4 IP_Equal_def IPv6loopback_def)
  have nz: "ip \<noteq> IPv4zero" using nm by (auto simp: IPv4zero_def v4InV6Prefix_def)
  have us: "IsUnspecified ip \<longleftrightarrow> ip = IPv6unspecified"
    using len nz by (simp add: IsUnspecified_def IP_Equal_def IPv6unspecified_def IPv4zero_def v4InV6Prefix_def)
  have raw: "IsPrivateOrReserved ip e =
      Some (IsLoopback ip \<or> (b0 = 0xfe \<and> b1 AND 0xc0 = 0x80) \<or> b0 AND 0xfe = 0xfc \<or>
            b0 = 0xff \<or> IsUnspecified ip)"
    using to4 by (simp add: IsPrivateOrReserved_def ip)
  have w: "b0 = 0xfe \<longleftrightarrow> uint b0 = 254" "b0 = 0xff \<longleftrightarrow> uint b0 = 255"
    by (simp_all add: word_uint_eq_iff)
  show ?thesis
    unfolding raw lb us byte_and_c0 byte_and_fe w
    unfolding v6_spec_blocks[OF r nm[unfolded ip], folded ip]
    by auto
qed

lemma extractor_form_reserved:
  "extractor_form ip \<Longrightarrow> IsPrivateOrReserved ip e = Some (spec_in_reserved_block ip)"
  unfolding extractor_form_def
  using v4_reserved v6_reserved list4 by metis


section \<open>The filter loop\<close>

lemma tally_Nil: "plus_stats st (tally []) = st"
  by (cases st) (simp add: plus_stats_def tally_def count_of_def)

lemma count_of_Cons: "count_of P (r # rs) = (if P r then 1 else 0) + count_of P rs"
  by (simp add: count_of_def)

lemma filter_step:
  assumes "IsPrivateOrReserved (StartIP r) (EndIP r) = Some b"
  shows "filter_loop (r # rs) (f, c, st) =
         filter_loop rs (f @ filter kept [r], c @ filter china_kept [r], plus_stats st (tally [r]))"
  using assms
  by (cases st)
     (simp add: kept_def china_kept_def is_reserved_def plus_stats_def tally_def count_of_def Let_def)

lemma tally_Cons: "plus_stats (plus_stats st (tally [r])) (tally rs) = plus_stats st (tally (r # rs))"
  by (simp add: plus_stats_def tally_def count_of_def)

lemma filter_loop_char:
  "filter_loop rs (f, c, st) =
     (if \<forall>r \<in> set rs. no_panic r
      then Some (f @ filter kept rs, c @ filter china_kept rs, plus_stats st (tally rs))
      else None)"
proof (induction rs arbitrary: f c st)
  case Nil
  then show ?case by (simp add: tally_Nil)
next
  case (Cons r rs)
  show ?case
  proof (cases "IsPrivateOrReserved (StartIP r) (EndIP r)")
    case None
    then show ?thesis by (simp add: no_panic_def)
  next
    case (Some b)
    then have np: "no_panic r" by (simp add: no_panic_def)
    show ?thesis
      unfolding filter_step[OF Some] Cons.IH tally_Cons
      using np by simp
  qed
qed

lemma FilterRanges_char:
  "FilterRanges rs =
     (if \<forall>r \<in> set rs. no_panic r
      then Some (filter kept rs, filter china_kept rs,
                 (tally rs)\<lparr>TotalRanges := int (length rs),
                            ChinaCIDRsSaved := int (length (filter china_kept rs))\<rparr>)
      else None)"
  by (simp add: FilterRanges_def filter_loop_char plus_stats_def tally_def zeroStats_def)


section \<open>The filter against the specification\<close>

lemma FilterRanges_extractor_form:
  assumes "\<forall>r \<in> set rs. extractor_form (StartIP r)"
  shows "\<exists>c st. FilterRanges rs =
           Some (filter (\<lambda>r. \<not> spec_mainland_label (Info r) \<and> \<not> spec_in_reserved_block (StartIP r)) rs, c, st)"
proof -
  have r: "IsPrivateOrReserved (StartIP r) (EndIP r) = Some (spec_in_reserved_block (StartIP r))"
    if "r \<in> set rs" for r
    using assms that extractor_form_reserved by blast
  then have np: "\<forall>r \<in> set rs. no_panic r" by (simp add: no_panic_def)
  have "filter kept rs =
        filter (\<lambda>r. \<not> spec_mainland_label (Info r) \<and> \<not> spec_in_reserved_block (StartIP r)) rs"
    by (rule filter_cong) (auto simp: kept_def is_reserved_def r IsMainlandChina_spec)
  with np show ?thesis by (simp add: FilterRanges_char)
qed

lemma mapped_not_reserved: "\<not> spec_in_reserved_block ip_8888_16"
proof -
  have t: "To4 ip_8888_16 = Some [8, 8, 8, 8]"
    by (simp add: To4_def ip_8888_16_def v4InV6Prefix_def)
  have "spec_in_reserved_block [8, 8, 8, 8::byte] = False"
    unfolding v4_spec_blocks by simp
  moreover have "spec_in_reserved_block ip_8888_16 = spec_in_reserved_block [8, 8, 8, 8]"
  proof -
    have d1: "ipToDecimal ip_8888_16 = Some 134744072" by (simp add: ipToDecimal_def t)
    have d2: "ipToDecimal [8, 8, 8, 8] = Some 134744072" by (simp add: ipToDecimal_def To4_def)
    have t2: "To4 [8, 8, 8, 8] = Some [8, 8, 8, 8]" by (simp add: To4_def)
    have "spec_in_block ip_8888_16 blk = spec_in_block [8, 8, 8, 8] blk" for blk
      by (simp add: spec_in_block_def d1 d2 t t2 split: prod.splits)
    then show ?thesis by (simp add: spec_in_reserved_block_def)
  qed
  ultimately show ?thesis by simp
qed

text \<open>
  C1 says that a range is in the filtered output of \<open>FilterRanges\<close> exactly when its
  label is not a mainland label and its first address lies in no reserved block. For the
  address forms of the extractor this holds (\<open>FilterRanges_extractor_form\<close>). For
  8.8.8.8 in the 16-byte form of an IPv4 address it fails: the label is not a mainland
  label, the address lies in no reserved block, and the range is dropped and counted as
  private, because the IPv4 branch reads byte 0 of the 16-byte slice, which is 0.
\<close>

theorem C1_sixteen_byte_IPv4_is_dropped:
  "\<not> spec_mainland_label (Info (range_of ip_8888_16 ip_8888_16 ''US'' ''IPv4'')) \<and>
   \<not> spec_in_reserved_block (StartIP (range_of ip_8888_16 ip_8888_16 ''US'' ''IPv4'')) \<and>
   FilterRanges [range_of ip_8888_16 ip_8888_16 ''US'' ''IPv4''] =
     Some ([], [], zeroStats\<lparr>TotalRanges := 1, PrivateFiltered := 1, OtherKept := 1\<rparr>)"
proof -
  let ?r = "range_of ip_8888_16 ip_8888_16 ''US'' ''IPv4''"
  have m: "\<not> IsMainlandChina (Info ?r)"
    by (simp add: range_of_def IsMainlandChina_def is_China_name_def countryName_of_def str_Zhongguo_def)
  have h: "\<not> isHongKong (Info ?r)" "\<not> isMacao (Info ?r)" "\<not> isTaiwan (Info ?r)"
    by (simp_all add: range_of_def isHongKong_def isMacao_def isTaiwan_def is_China_name_def
        countryName_of_def str_Zhongguo_def)
  have p: "IsPrivateOrReserved (StartIP ?r) (EndIP ?r) = Some True"
    by (simp add: range_of_def IsPrivateOrReserved_def To4_def ip_8888_16_def v4InV6Prefix_def)
  have "FilterRanges [?r] = Some ([], [], zeroStats\<lparr>TotalRanges := 1, PrivateFiltered := 1, OtherKept := 1\<rparr>)"
    using m h p by (simp add: FilterRanges_def zeroStats_def Let_def)
  moreover have "\<not> spec_in_reserved_block (StartIP ?r)"
    using mapped_not_reserved by (simp add: range_of_def)
  ultimately show ?thesis using m by (simp add: IsMainlandChina_spec)
qed


theorem C1_sixteen_byte_IPv4_is_dropped_witness:
  "''Hong Kong'' \<in> set spec_region_markers \<and> (True, 0x0A000000, 8) \<in> set spec_reserved_blocks \<and>
   ipToDecimal ip_8888_16 = Some 0x08080808 \<and>
   FilterRanges [range_of ip_8888_16 ip_8888_16 ''US'' ''IPv4''] =
     Some ([], [], zeroStats\<lparr>TotalRanges := 1, PrivateFiltered := 1, OtherKept := 1\<rparr>)"
  using C1_sixteen_byte_IPv4_is_dropped
  by (simp add: spec_region_markers_def spec_reserved_blocks_def ipToDecimal_def To4_def
      ip_8888_16_def v4InV6Prefix_def)

section \<open>The parallel filter\<close>

lemma worker_result_char:
  "worker_result chunk =
     (if \<forall>r \<in> set chunk. no_panic r
      then Some (filter kept chunk, filter china_kept chunk,
                 (tally_saved chunk)\<lparr>TotalRanges := int (length chunk)\<rparr>)
      else None)"
  by (simp add: worker_result_def FilterRanges_char tally_saved_def tally_def)

lemma count_of_append: "count_of P (xs @ ys) = count_of P xs + count_of P ys"
  by (simp add: count_of_def)

lemma acc_stats_step:
  "acc_stats (acc_stats t (tally_saved xs)) ((tally_saved ys)\<lparr>TotalRanges := n\<rparr>) =
   acc_stats t (tally_saved (xs @ ys))"
  by (cases t) (simp add: acc_stats_def tally_saved_def tally_def count_of_append)

lemma acc_stats_Nil: "acc_stats t (tally_saved []) = t"
  by (cases t) (simp add: acc_stats_def tally_saved_def tally_def count_of_def)

lemma collect_step:
  "collect_results (Some (f, c, s) # rest) (F, C, T) =
   collect_results rest (F @ f, C @ c, acc_stats T s)"
  by (simp add: acc_stats_def)

lemma collect_char:
  "collect_results (map (\<lambda>i. worker_result (ch i)) js) (F, C, acc_stats T (tally_saved L)) =
     (if \<forall>r \<in> set (concat (map ch js)). no_panic r
      then Some (F @ filter kept (concat (map ch js)), C @ filter china_kept (concat (map ch js)),
                 acc_stats T (tally_saved (L @ concat (map ch js))))
      else None)"
proof (induction js arbitrary: F C L)
  case Nil
  then show ?case by simp
next
  case (Cons j js)
  show ?case
  proof (cases "\<forall>r \<in> set (ch j). no_panic r")
    case True
    then have w: "worker_result (ch j) =
        Some (filter kept (ch j), filter china_kept (ch j),
              (tally_saved (ch j))\<lparr>TotalRanges := int (length (ch j))\<rparr>)"
      by (simp add: worker_result_char)
    show ?thesis
      using True
      by (simp only: list.map w collect_step acc_stats_step Cons.IH) auto
  next
    case False
    then have "worker_result (ch j) = None" by (simp add: worker_result_char)
    with False show ?thesis by auto
  qed
qed

lemma chunks_take:
  "concat (map (\<lambda>i. take cs (drop (i * cs) rs)) [0..<k]) = take (k * cs) rs"
proof (induction k)
  case 0
  then show ?case by simp
next
  case (Suc k)
  have "take (k * cs) rs @ take cs (drop (k * cs) rs) = take (k * cs + cs) rs"
    by (simp add: take_add)
  with Suc show ?case by (simp add: add.commute)
qed

lemma chunks_concat:
  assumes "0 < n"
  shows "concat (map (worker_chunk rs n cs) [0..<n]) = rs"
proof -
  from assms obtain m where n: "n = Suc m" by (cases n) auto
  have 1: "map (worker_chunk rs (Suc m) cs) [0..<m] = map (\<lambda>i. take cs (drop (i * cs) rs)) [0..<m]"
    by (rule map_cong) (auto simp: worker_chunk_def)
  have 2: "worker_chunk rs (Suc m) cs m = drop (m * cs) rs"
    by (simp add: worker_chunk_def)
  show ?thesis
    unfolding n by (simp add: 1 2 chunks_take)
qed

lemma mset_concat_perm:
  assumes "mset js = mset ks"
  shows "mset (concat (map ch js)) = mset (concat (map ch ks))"
proof -
  have "mset (concat (map ch xs)) = (\<Sum>i\<in>#mset xs. mset (ch i))" for xs
    by (induction xs) auto
  with assms show ?thesis by simp
qed

lemma tally_saved_mset:
  assumes "mset xs = mset ys"
  shows "tally_saved xs = tally_saved ys"
proof -
  have "count_of P xs = count_of P ys" for P
    using assms by (metis count_of_def mset_filter size_mset)
  moreover have "length (filter china_kept xs) = length (filter china_kept ys)"
    using assms by (metis mset_filter size_mset)
  ultimately show ?thesis by (simp add: tally_saved_def tally_def)
qed

lemma FilterRangesParallel_char:
  assumes "0 < numCPU" and "rs \<noteq> []"
  shows "FilterRangesParallel numCPU arrival rs =
     (let n = min numCPU (length rs);
          L = concat (map (worker_chunk rs n (length rs div n)) arrival)
      in if \<forall>r \<in> set L. no_panic r
         then Some (filter kept L, filter china_kept L,
                    acc_stats (zeroStats\<lparr>TotalRanges := int (length rs)\<rparr>) (tally_saved L))
         else None)"
proof -
  define n where "n = min numCPU (length rs)"
  have n: "0 < n" "n \<le> length rs" using assms by (auto simp: n_def)
  then have d: "length rs div n \<noteq> 0" by (simp add: div_eq_0_iff)
  have nw: "(if numCPU > length rs then length rs else numCPU) = n" by (auto simp: n_def)
  have "FilterRangesParallel numCPU arrival rs =
          collect_results (map (\<lambda>i. worker_result (worker_chunk rs n (length rs div n) i)) arrival)
            ([], [], acc_stats (zeroStats\<lparr>TotalRanges := int (length rs)\<rparr>) (tally_saved []))"
    using assms n d by (simp add: FilterRangesParallel_def nw acc_stats_Nil Let_def)
  then show ?thesis
    unfolding collect_char by (simp add: n_def Let_def)
qed

lemma FilterRanges_stats:
  "(tally rs)\<lparr>TotalRanges := int (length rs), ChinaCIDRsSaved := int (length (filter china_kept rs))\<rparr> =
   acc_stats (zeroStats\<lparr>TotalRanges := int (length rs)\<rparr>) (tally_saved rs)"
  by (simp add: acc_stats_def zeroStats_def tally_saved_def tally_def)

lemma FilterRangesParallel_perm:
  assumes "0 < numCPU" and "mset arrival = mset [0..<min numCPU (length rs)]"
  shows "\<exists>L. mset L = mset rs \<and> (arrival = [0..<min numCPU (length rs)] \<longrightarrow> L = rs) \<and>
           FilterRangesParallel numCPU arrival rs =
             (if \<forall>r \<in> set rs. no_panic r
              then Some (filter kept L, filter china_kept L,
                         (tally rs)\<lparr>TotalRanges := int (length rs),
                                    ChinaCIDRsSaved := int (length (filter china_kept rs))\<rparr>)
              else None)"
proof (cases "rs = []")
  case True
  then show ?thesis
    by (auto simp: FilterRangesParallel_def zeroStats_def tally_def count_of_def intro!: exI[of _ "[]"])
next
  case False
  define n where "n = min numCPU (length rs)"
  define L where "L = concat (map (worker_chunk rs n (length rs div n)) arrival)"
  have n: "0 < n" using assms False by (auto simp: n_def)
  have full: "concat (map (worker_chunk rs n (length rs div n)) [0..<n]) = rs"
    by (rule chunks_concat[OF n])
  have m: "mset L = mset rs"
    unfolding L_def
    using mset_concat_perm[OF assms(2)[folded n_def], of "worker_chunk rs n (length rs div n)"]
    by (simp only: full)
  then have s: "set L = set rs" by (rule mset_eq_setD)
  have o: "arrival = [0..<n] \<longrightarrow> L = rs" using full by (simp add: L_def)
  have "FilterRangesParallel numCPU arrival rs =
          (if \<forall>r \<in> set rs. no_panic r
           then Some (filter kept L, filter china_kept L,
                      (tally rs)\<lparr>TotalRanges := int (length rs),
                                 ChinaCIDRsSaved := int (length (filter china_kept rs))\<rparr>)
           else None)"
    unfolding FilterRangesParallel_char[OF assms(1) False] FilterRanges_stats Let_def
      n_def[symmetric] L_def[symmetric]
    by (simp only: s tally_saved_mset[OF m])
  with m o show ?thesis unfolding n_def by blast
qed


section \<open>The parallel filter against the sequential one\<close>

lemma two_ranges_kept:
  "kept range_8888" "kept range_9999" "\<not> china_kept range_8888" "\<not> china_kept range_9999"
  "no_panic range_8888" "no_panic range_9999"
  by (simp_all add: kept_def china_kept_def no_panic_def is_reserved_def range_8888_def range_9999_def
      range_of_def IsMainlandChina_def is_China_name_def countryName_of_def str_Zhongguo_def
      IsPrivateOrReserved_def To4_def)

lemma two_ranges_tally:
  "tally_saved [range_8888] = zeroStats\<lparr>OtherKept := 1\<rparr>"
  "tally_saved [range_9999] = zeroStats\<lparr>OtherKept := 1\<rparr>"
  "(tally [range_8888, range_9999])\<lparr>TotalRanges := 2, ChinaCIDRsSaved := 0\<rparr> =
     zeroStats\<lparr>TotalRanges := 2, OtherKept := 2\<rparr>"
  by (simp_all add: tally_saved_def tally_def count_of_def zeroStats_def is_reserved_def
      china_kept_def range_8888_def range_9999_def
      range_of_def IsMainlandChina_def isHongKong_def isMacao_def isTaiwan_def
      is_China_name_def countryName_of_def str_Zhongguo_def IsPrivateOrReserved_def To4_def)

lemma two_ranges_sequential:
  "FilterRanges [range_8888, range_9999] =
     Some ([range_8888, range_9999], [], zeroStats\<lparr>TotalRanges := 2, OtherKept := 2\<rparr>)"
  by (simp add: FilterRanges_char two_ranges_kept two_ranges_tally)

lemma two_ranges_chunks:
  "worker_chunk [range_8888, range_9999] 2 (Suc 0) 0 = [range_8888]"
  "worker_chunk [range_8888, range_9999] 2 (Suc 0) (Suc 0) = [range_9999]"
  by (simp_all add: worker_chunk_def)

lemma two_ranges_parallel:
  "FilterRangesParallel 2 [1, 0] [range_8888, range_9999] =
     Some ([range_9999, range_8888], [], zeroStats\<lparr>TotalRanges := 2, OtherKept := 2\<rparr>)"
  by (simp add: FilterRangesParallel_def two_ranges_chunks worker_result_char two_ranges_kept
      two_ranges_tally zeroStats_def)

text \<open>
  C7, as the specification states it: \<open>FilterRangesParallel\<close> returns the lists of
  \<open>FilterRanges\<close>, same elements in the same order. With two workers of which the
  second delivers first, the two kept ranges come out in the opposite order.
\<close>

theorem C7_order_depends_on_arrival:
  "FilterRanges [range_8888, range_9999] =
     Some ([range_8888, range_9999], [], zeroStats\<lparr>TotalRanges := 2, OtherKept := 2\<rparr>) \<and>
   FilterRangesParallel 2 [1, 0] [range_8888, range_9999] =
     Some ([range_9999, range_8888], [], zeroStats\<lparr>TotalRanges := 2, OtherKept := 2\<rparr>) \<and>
   FilterRangesParallel 2 [1, 0] [range_8888, range_9999] \<noteq> FilterRanges [range_8888, range_9999]"
proof -
  have "range_8888 \<noteq> range_9999"
    by (simp add: range_8888_def range_9999_def range_of_def)
  then show ?thesis
    unfolding two_ranges_sequential two_ranges_parallel by simp
qed

text \<open>
  C7, amended: whatever the order in which the workers deliver, \<open>FilterRangesParallel\<close>
  panics exactly when \<open>FilterRanges\<close> does, and otherwise returns the same statistics and,
  in both lists, the same ranges as multisets; when the workers deliver in index order
  the two results are equal, lists and order included.
\<close>

theorem C7_parallel_filter:
  assumes "0 < numCPU" and "mset arrival = mset [0..<min numCPU (length ranges)]"
  shows "rel_option same_up_to_order
           (FilterRangesParallel numCPU arrival ranges) (FilterRanges ranges) \<and>
         (arrival = [0..<min numCPU (length ranges)] \<longrightarrow>
            FilterRangesParallel numCPU arrival ranges = FilterRanges ranges)"
proof -
  from FilterRangesParallel_perm[OF assms] obtain L where
    m: "mset L = mset ranges" and o: "arrival = [0..<min numCPU (length ranges)] \<longrightarrow> L = ranges"
    and p: "FilterRangesParallel numCPU arrival ranges =
             (if \<forall>r \<in> set ranges. no_panic r
              then Some (filter kept L, filter china_kept L,
                         (tally ranges)\<lparr>TotalRanges := int (length ranges),
                                    ChinaCIDRsSaved := int (length (filter china_kept ranges))\<rparr>)
              else None)"
    by blast
  have A: "rel_option same_up_to_order
             (FilterRangesParallel numCPU arrival ranges) (FilterRanges ranges)"
    unfolding p FilterRanges_char by (simp add: same_up_to_order_def m)
  have B: "FilterRangesParallel numCPU arrival ranges = FilterRanges ranges"
    if "arrival = [0..<min numCPU (length ranges)]"
  proof -
    from that o have "L = ranges" by simp
    then show ?thesis unfolding p FilterRanges_char by simp
  qed
  from A B show ?thesis by blast
qed

theorem C7_parallel_filter_witness:
  "0 < (2::nat) \<and> mset [0, 1::nat] = mset [0..<min 2 (length [range_8888, range_9999])] \<and>
   [0, 1::nat] = [0..<min 2 (length [range_8888, range_9999])] \<and>
   FilterRangesParallel 2 [0, 1] [range_8888, range_9999] =
     Some ([range_8888, range_9999], [], zeroStats\<lparr>TotalRanges := 2, OtherKept := 2\<rparr>)"
proof -
  have u: "[0..<min 2 (length [range_8888, range_9999])] = [0, 1::nat]"
    by (simp add: upt_rec)
  have h1: "0 < (2::nat)" by simp
  have h2: "mset [0, 1::nat] = mset [0..<min 2 (length [range_8888, range_9999])]"
    by (simp only: u)
  from C7_parallel_filter[OF h1 h2] u
  have "FilterRangesParallel 2 [0, 1] [range_8888, range_9999] = FilterRanges [range_8888, range_9999]"
    by simp
  with u h2 show ?thesis by (simp add: two_ranges_sequential)
qed


section \<open>The extractor on malformed databases\<close>

lemma small_db_offset: "calculateV4Offset (small_db\<lparr>v4offset := 0\<rparr>) = Some small_db"
  by code_simp

lemma small_db_resolve: "resolve small_db 100 = Some (Inl ''database error'')"
  by code_simp

lemma small_db_extract:
  "ExtractAllRanges 3 small_db = Returns ([small_v4_range], [small_v6_range], None)"
  by code_simp

lemma bad_prefix_slices:
  "slice_range bad_prefix_file 0 4 = Some \<lparr>arr = arr bad_prefix_file, len_s = 4\<rparr>"
  "SetBytes (bytes_of \<lparr>arr = arr bad_prefix_file, len_s = 4\<rparr>) = 4294967295"
  "slice_range bad_prefix_file 4 4294967299 = None"
  by (simp_all add: slice_range_def bytes_of_def cap_s_def bad_prefix_file_def)



text \<open>
  C3 says that a leaf pointer that resolves outside the body makes \<open>ExtractAllRanges\<close>
  return an error and no partial list. On the small database, whose right leaf
  resolves outside the body, \<open>resolve\<close> gives the error, the walks drop it, and
  \<open>ExtractAllRanges\<close> returns the ranges of the other leaf with a nil error.
\<close>

theorem C3_bad_leaf_is_skipped:
  "calculateV4Offset (small_db\<lparr>v4offset := 0\<rparr>) = Some small_db \<and>
   resolve small_db 100 = Some (Inl ''database error'') \<and>
   ExtractAllRanges 3 small_db = Returns ([small_v4_range], [small_v6_range], None)"
  by (simp add: small_db_offset small_db_resolve small_db_extract)

text \<open>
  C9 says that \<open>NewExtractor\<close> returns an extractor or an error for every content,
  also when the length prefix points past the end. On a file that starts with the length
  prefix \<open>0xffffffff\<close> the slicing \<open>body[4:4+metaLength]\<close> panics, whatever the
  JSON decoder would do.
\<close>

theorem C9_length_prefix_past_end_panics:
  "NewExtractor jsonUnmarshal (Inr bad_prefix_file) = Panics"
  by (simp add: NewExtractor_def bad_prefix_slices)

section \<open>Paths under the IPv4-mapped prefix\<close>

lemma mapped_prefix_nth:
  "i < 96 \<Longrightarrow> mapped_prefix ! i = (if i < 80 then 0 else 1)"
  by (auto simp: mapped_prefix_def nth_append)

lemma under_mapped_prefix_iff:
  "under_mapped_prefix path \<longleftrightarrow>
     length path \<ge> 96 \<and> (\<forall>i < 96. path ! i = (if i < 80 then 0 else 1))"
proof -
  have l: "length mapped_prefix = 96" by (simp add: mapped_prefix_def)
  show ?thesis
    unfolding under_mapped_prefix_def
    by (auto simp: list_eq_iff_nth_eq l mapped_prefix_nth)
qed

lemma bex_upt: "(\<exists>i \<in> set [a..<b]. P i) \<longleftrightarrow> (\<exists>i. a \<le> i \<and> i < b \<and> P i)"
  by auto

lemma isIPv4MappedPath_iff: "isIPv4MappedPath path \<longleftrightarrow> under_mapped_prefix path"
proof (cases "length path < 96")
  case True
  then show ?thesis by (simp add: isIPv4MappedPath_def under_mapped_prefix_iff)
next
  case False
  have "isIPv4MappedPath path \<longleftrightarrow>
          \<not> (\<exists>i. 0 \<le> i \<and> i < 80 \<and> path ! i \<noteq> 0) \<and> \<not> (\<exists>i. 80 \<le> i \<and> i < 96 \<and> path ! i \<noteq> 1)"
    unfolding isIPv4MappedPath_def bex_upt using False by auto
  also have "\<dots> \<longleftrightarrow> (\<forall>i < 96. path ! i = (if i < 80 then 0 else 1))"
  proof
    assume h: "\<not> (\<exists>i. 0 \<le> i \<and> i < 80 \<and> path ! i \<noteq> 0) \<and> \<not> (\<exists>i. 80 \<le> i \<and> i < 96 \<and> path ! i \<noteq> 1)"
    show "\<forall>i < 96. path ! i = (if i < 80 then 0 else 1)"
    proof (intro allI impI)
      fix i :: nat assume i: "i < 96"
      show "path ! i = (if i < 80 then 0 else 1)"
      proof (cases "i < 80")
        case True
        with h show ?thesis by simp
      next
        case False
        with h i show ?thesis by (auto simp: not_less)
      qed
    qed
  next
    assume h: "\<forall>i < 96. path ! i = (if i < 80 then 0 else 1)"
    have "path ! i = 0" if "i < 80" for i
    proof -
      from that have "i < 96" by simp
      with h that show ?thesis by simp
    qed
    moreover have "path ! i = 1" if "80 \<le> i" "i < 96" for i using h that by (simp add: not_less)
    ultimately show "\<not> (\<exists>i. 0 \<le> i \<and> i < 80 \<and> path ! i \<noteq> 0) \<and> \<not> (\<exists>i. 80 \<le> i \<and> i < 96 \<and> path ! i \<noteq> 1)"
      by blast
  qed
  finally show ?thesis using False by (simp add: under_mapped_prefix_iff)
qed

lemma under_mapped_prefix_snoc:
  "length path \<ge> 96 \<Longrightarrow> under_mapped_prefix (path @ [b]) = under_mapped_prefix path"
  by (simp add: under_mapped_prefix_def)


lemma path_bit_update:
  assumes "k div 8 < length ip" "j div 8 < length ip"
  shows "path_bit (ip[k div 8 := (ip ! (k div 8)) OR push_bit (7 - k mod 8) 1]) j \<longleftrightarrow>
         path_bit ip j \<or> j = k"
proof (cases "j div 8 = k div 8")
  case True
  have e: "7 - j mod 8 = 7 - k mod 8 \<longleftrightarrow> j = k"
  proof
    assume "7 - j mod 8 = 7 - k mod 8"
    then have "j mod 8 = k mod 8" by (simp add: diff_diff_eq eq_diff_iff) 
    with True show "j = k" by (metis div_mult_mod_eq)
  qed simp
  have "7 - j mod 8 < 8" by simp
  then show ?thesis
    using assms True e
    by (auto simp: path_bit_def bit_or_iff bit_exp_iff)
next
  case False
  then have "j \<noteq> k" by auto
  with False assms show ?thesis by (simp add: path_bit_def)
qed

lemma set_path_bits_bits:
  assumes "set_path_bits path k ip0 = Some ip"
  shows "length ip = length ip0 \<and>
         (\<forall>j. j div 8 < length ip0 \<longrightarrow>
            (path_bit ip j \<longleftrightarrow> path_bit ip0 j \<or> (k \<le> j \<and> j < k + length path \<and> path ! (j - k) = 1)))"
  using assms
proof (induction path arbitrary: k ip0)
  case Nil
  then show ?case by auto
next
  case (Cons b path)
  show ?case
  proof (cases "b = 1")
    case True
    with Cons.prems have lt: "k div 8 < length ip0"
      and rec: "set_path_bits path (k + 1) (ip0[k div 8 := (ip0 ! (k div 8)) OR push_bit (7 - k mod 8) 1]) = Some ip"
      by (auto simp: Let_def split: if_splits)
    note ih = Cons.IH[OF rec]
    show ?thesis
    proof (intro conjI allI impI)
      show "length ip = length ip0" using ih by simp
    next
      fix j assume j: "j div 8 < length ip0"
      have "path_bit ip j \<longleftrightarrow>
              (path_bit ip0 j \<or> j = k) \<or> (k + 1 \<le> j \<and> j < k + 1 + length path \<and> path ! (j - (k + 1)) = 1)"
        using ih j path_bit_update[OF lt j] by simp
      also have "\<dots> \<longleftrightarrow> path_bit ip0 j \<or> (k \<le> j \<and> j < k + length (b # path) \<and> (b # path) ! (j - k) = 1)"
        using True by (auto simp: nth_Cons' Suc_diff_le less_Suc_eq_le)
      finally show "path_bit ip j \<longleftrightarrow> path_bit ip0 j \<or> (k \<le> j \<and> j < k + length (b # path) \<and> (b # path) ! (j - k) = 1)" .
    qed
  next
    case False
    with Cons.prems have rec: "set_path_bits path (k + 1) ip0 = Some ip" by simp
    note ih = Cons.IH[OF rec]
    show ?thesis
    proof (intro conjI allI impI)
      show "length ip = length ip0" using ih by simp
    next
      fix j assume j: "j div 8 < length ip0"
      have "path_bit ip j \<longleftrightarrow>
              path_bit ip0 j \<or> (k + 1 \<le> j \<and> j < k + 1 + length path \<and> path ! (j - (k + 1)) = 1)"
        using ih j by simp
      also have "\<dots> \<longleftrightarrow> path_bit ip0 j \<or> (k \<le> j \<and> j < k + length (b # path) \<and> (b # path) ! (j - k) = 1)"
        using False by (auto simp: nth_Cons' less_Suc_eq_le)
      finally show "path_bit ip j \<longleftrightarrow> path_bit ip0 j \<or> (k \<le> j \<and> j < k + length (b # path) \<and> (b # path) ! (j - k) = 1)" .
    qed
  qed
qed


lemma v4InV6Prefix_nth:
  "k < 10 \<Longrightarrow> v4InV6Prefix ! k = 0"
  "k = 10 \<or> k = 11 \<Longrightarrow> v4InV6Prefix ! k = 0xff"
proof -
  have e: "v4InV6Prefix = replicate 10 0 @ [0xff, 0xff]"
    by (simp add: v4InV6Prefix_def numeral_eq_Suc)
  show "k < 10 \<Longrightarrow> v4InV6Prefix ! k = 0" by (simp add: e nth_append)
  show "k = 10 \<or> k = 11 \<Longrightarrow> v4InV6Prefix ! k = 0xff" by (auto simp: e nth_append)
qed

lemma byte_ff_bit: "m < 8 \<Longrightarrow> bit (0xff :: byte) m"
proof -
  have "(0xff :: byte) = - 1" by simp
  then show "m < 8 \<Longrightarrow> bit (0xff :: byte) m" by (simp only: bit_minus_1_iff) simp
qed

lemma leaf_not_under_prefix:
  assumes c: "pathToCIDR path False = Some c" and p: "set path \<subseteq> {0, 1}"
    and n: "\<not> under_mapped_prefix path"
  shows "\<not> range_under_mapped_prefix (leaf_range c bytes ty)"
proof
  assume u: "range_under_mapped_prefix (leaf_range c bytes ty)"
  from c obtain ip where sp: "set_path_bits path 0 (replicate 16 0) = Some ip"
    and c': "c = ((ip, int (length path)), ip, calculateEndIP ip (int (length path)) False)"
    by (auto simp: pathToCIDR_def Let_def split: option.splits)
  from u c' have len: "96 \<le> length path" and tk: "take 12 ip = v4InV6Prefix"
    by (simp_all add: range_under_mapped_prefix_def leaf_range_def Let_def)
  from set_path_bits_bits[OF sp] have l16: "length ip = 16"
    and bits: "\<And>j. j div 8 < 16 \<Longrightarrow>
                 path_bit ip j \<longleftrightarrow> path_bit (replicate 16 0) j \<or> (j < length path \<and> path ! j = 1)"
    by simp_all
  have z: "\<not> path_bit (replicate 16 0) j" if "j div 8 < 16" for j
    using that by (simp add: path_bit_def)
  have pb: "path_bit ip i \<longleftrightarrow> path ! i = 1" if "i < 96" for i
  proof -
    from that have "i div 8 < 16" by simp
    with bits[of i] z[of i] that len show ?thesis by simp
  qed
  have nth: "ip ! (i div 8) = v4InV6Prefix ! (i div 8)" if "i < 96" for i
  proof -
    from that have "i div 8 < 12" by simp
    then have "take 12 ip ! (i div 8) = ip ! (i div 8)" by simp
    with tk show ?thesis by simp
  qed
  have "path ! i = (if i < 80 then 0 else 1)" if i: "i < 96" for i
  proof (cases "i < 80")
    case True
    then have "i div 8 < 10" by simp
    then have "ip ! (i div 8) = 0" using nth[OF i] v4InV6Prefix_nth(1) by simp
    then have "\<not> path_bit ip i" by (simp add: path_bit_def)
    with pb[OF i] have "path ! i \<noteq> 1" by simp
    moreover have "path ! i \<in> {0, 1}" using p i len by (meson nth_mem less_le_trans subsetD)
    ultimately show ?thesis using True by auto
  next
    case False
    with i have "i div 8 = 10 \<or> i div 8 = 11" by presburger
    then have "ip ! (i div 8) = 0xff" using nth[OF i] v4InV6Prefix_nth(2) by simp
    moreover have "bit (0xff :: byte) (7 - i mod 8)" by (rule byte_ff_bit) simp
    ultimately have "path_bit ip i" by (simp only: path_bit_def)
    with pb[OF i] False show ?thesis by simp
  qed
  with len have "under_mapped_prefix path" by (simp add: under_mapped_prefix_iff)
  with n show False by simp
qed


lemma path_step_ok:
  assumes "length path \<le> 96 \<or> \<not> under_mapped_prefix path"
    and "\<not> (length path = 96 \<and> isIPv4MappedPath path)"
  shows "length (path @ [b]) \<le> 96 \<or> \<not> under_mapped_prefix (path @ [b])"
proof (cases "length path < 96")
  case True
  then show ?thesis by simp
next
  case False
  then have ge: "96 \<le> length path" by simp
  have "\<not> under_mapped_prefix path"
  proof (cases "length path = 96")
    case True
    with assms(2) show ?thesis by (simp add: isIPv4MappedPath_iff)
  next
    case False
    with ge assms(1) show ?thesis by auto
  qed
  then show ?thesis by (simp add: under_mapped_prefix_snoc[OF ge])
qed

lemma walk_never_emits_mapped:
  assumes "set path \<subseteq> {0, 1}"
    and "length path \<le> 96 \<or> \<not> under_mapped_prefix path"
    and "\<forall>r \<in> set ranges. \<not> range_under_mapped_prefix r"
  shows "\<forall>r \<in> set (snd (traverseIPv6NodeFromRoot fuel e node path ranges)).
           \<not> range_under_mapped_prefix r"
  using assms
proof (induction fuel arbitrary: node path ranges)
  case 0
  then show ?case by simp
next
  case (Suc fuel)
  show ?case
  proof (cases "length path = 96 \<and> isIPv4MappedPath path")
    case True
    with Suc.prems show ?thesis by simp
  next
    case nm: False
    show ?thesis
    proof (cases "node \<ge> nodeCount e")
      case leaf: True
      show ?thesis
      proof (cases "isIPv4MappedPath path")
        case True
        with nm leaf Suc.prems show ?thesis by simp
      next
        case False
        then have nu: "\<not> under_mapped_prefix path" by (simp add: isIPv4MappedPath_iff)
        show ?thesis
          using nm leaf False Suc.prems(3) leaf_not_under_prefix[OF _ Suc.prems(1) nu]
          by (auto split: option.splits sum.splits)
      qed
    next
      case inner: False
      have p0: "set (path @ [0]) \<subseteq> {0, 1}" and p1: "set (path @ [1]) \<subseteq> {0, 1}"
        using Suc.prems(1) by auto
      note s0 = path_step_ok[OF Suc.prems(2) nm, of 0]
      note s1 = path_step_ok[OF Suc.prems(2) nm, of 1]
      show ?thesis
      proof (cases "readNode e node 0")
        case None
        with nm inner Suc.prems show ?thesis by simp
      next
        case (Some leftNode)
        note l = Some
        show ?thesis
        proof (cases "readNode e node 1")
          case None
          with nm inner l Suc.prems show ?thesis by simp
        next
          case (Some rightNode)
          define left where "left = (if leftNode \<noteq> 0
               then traverseIPv6NodeFromRoot fuel e leftNode (path @ [0]) ranges
               else (Returned, ranges))"
          have ql: "\<forall>r \<in> set (snd left). \<not> range_under_mapped_prefix r"
            using Suc.IH[OF p0 s0 Suc.prems(3)] Suc.prems(3) by (simp add: left_def)
          have e: "traverseIPv6NodeFromRoot (Suc fuel) e node path ranges =
                   (case left of
                      (Returned, ranges1) \<Rightarrow>
                        (if rightNode \<noteq> 0
                         then traverseIPv6NodeFromRoot fuel e rightNode (path @ [1]) ranges1
                         else (Returned, ranges1))
                    | (st, ranges1) \<Rightarrow> (st, ranges1))"
            using nm inner l Some by (auto simp: left_def)
          show ?thesis
          proof (cases left)
            case (Pair st ranges1)
            with ql have q1: "\<forall>r \<in> set ranges1. \<not> range_under_mapped_prefix r" by simp
            show ?thesis
              unfolding e Pair
              using Suc.IH[OF p1 s1 q1] q1 by (cases st) auto
          qed
        qed
      qed
    qed
  qed
qed


section \<open>The IPv6 walk and the IPv4-mapped subtree\<close>

lemma mapped_prefix_is_mapped: "length mapped_prefix = 96 \<and> isIPv4MappedPath mapped_prefix"
  by (simp add: isIPv4MappedPath_iff under_mapped_prefix_def) (simp add: mapped_prefix_def)

text \<open>
  C6: the IPv6 walk from the root never puts a range under the 96-bit IPv4-mapped
  prefix into its list, however it ends (it returns, panics or is cut off), so no such
  range is in the IPv6 list that \<open>ExtractAllRanges\<close> returns; and a call that stands at
  the prefix itself returns at once with the list unchanged, which skips the whole
  subtree below.
\<close>

theorem C6_mapped_subtree_skipped:
  "(\<forall>r \<in> set (snd (traverseIPv6NodeFromRoot fuel e 0 [] [])). \<not> range_under_mapped_prefix r) \<and>
   (\<forall>ipv4Ranges ipv6Ranges err.
      ExtractAllRanges fuel e = Returns (ipv4Ranges, ipv6Ranges, err) \<longrightarrow>
      (\<forall>r \<in> set ipv6Ranges. \<not> range_under_mapped_prefix r)) \<and>
   traverseIPv6NodeFromRoot (Suc fuel) e node mapped_prefix ranges = (Returned, ranges)"
proof (intro conjI allI impI)
  show w: "\<forall>r \<in> set (snd (traverseIPv6NodeFromRoot fuel e 0 [] [])). \<not> range_under_mapped_prefix r"
    by (rule walk_never_emits_mapped) simp_all
  show "traverseIPv6NodeFromRoot (Suc fuel) e node mapped_prefix ranges = (Returned, ranges)"
    using mapped_prefix_is_mapped by simp
  fix ipv4Ranges ipv6Ranges err
  assume r: "ExtractAllRanges fuel e = Returns (ipv4Ranges, ipv6Ranges, err)"
  then have "ipv6Ranges = [] \<or> ipv6Ranges = snd (traverseIPv6NodeFromRoot fuel e 0 [] [])"
    by (auto simp: ExtractAllRanges_def split: if_splits prod.splits status.splits)
  with w show "\<forall>r \<in> set ipv6Ranges. \<not> range_under_mapped_prefix r" by auto
qed

theorem C6_mapped_subtree_skipped_witness:
  "ExtractAllRanges 3 small_db = Returns ([small_v4_range], [small_v6_range], None) \<and>
   set (snd (traverseIPv6NodeFromRoot 3 small_db 0 [] [])) = {small_v6_range} \<and>
   \<not> range_under_mapped_prefix small_v6_range"
proof -
  have t: "traverseIPv6NodeFromRoot 3 small_db 0 [] [] = (Returned, [small_v6_range])"
    by code_simp
  from C6_mapped_subtree_skipped[of 3 small_db] small_db_extract
  have "\<not> range_under_mapped_prefix small_v6_range" by simp
  with t show ?thesis by (simp add: small_db_extract)
qed


section \<open>The order of compareIPs\<close>

lemma SetBytes_append: "SetBytes (xs @ ys) = SetBytes xs * 256 ^ length ys + SetBytes ys"
  by (induction xs) (simp_all add: algebra_simps power_add)

lemma compare_loop_SetBytes:
  "length xs = length ys \<Longrightarrow>
   compare_loop xs ys = Some (if SetBytes xs < SetBytes ys then - 1
                              else if SetBytes xs > SetBytes ys then 1 else 0)"
proof (induction xs ys rule: list_induct2)
  case Nil
  then show ?case by simp
next
  case (Cons x xs y ys)
  define X :: int where "X = 256 ^ length xs"
  have X: "0 < X" by (simp add: X_def)
  have bx: "0 \<le> SetBytes xs" "SetBytes xs < X" "0 \<le> SetBytes ys" "SetBytes ys < X"
    using SetBytes_bounds[of xs] SetBytes_bounds[of ys] Cons.hyps by (simp_all add: X_def)
  have s: "SetBytes (x # xs) = uint x * X + SetBytes xs" "SetBytes (y # ys) = uint y * X + SetBytes ys"
    using Cons.hyps by (simp_all add: X_def)
  consider "x < y" | "y < x" | "x = y" by (metis linorder_less_linear)
  then show ?case
  proof cases
    case 1
    then have "uint x + 1 \<le> uint y" by (simp add: word_less_def)
    then have "(uint x + 1) * X \<le> uint y * X" using X by (intro mult_right_mono) auto
    then have "SetBytes (x # xs) < SetBytes (y # ys)" unfolding s using bx
      by (simp add: algebra_simps)
    with 1 show ?thesis by simp
  next
    case 2
    then have "uint y + 1 \<le> uint x" by (simp add: word_less_def)
    then have "(uint y + 1) * X \<le> uint x * X" using X by (intro mult_right_mono) auto
    then have "SetBytes (y # ys) < SetBytes (x # xs)" unfolding s using bx
      by (simp add: algebra_simps)
    with 2 show ?thesis by (simp add: not_less less_imp_le)
  next
    case 3
    then show ?thesis using Cons.IH unfolding s by simp
  qed
qed

lemma key16_4: "length ip = 4 \<Longrightarrow> key16 ip = 0xffff * 2 ^ 32 + SetBytes ip"
  by (simp add: key16_def To16_def nil_or_def SetBytes_append v4InV6Prefix_def)

lemma key16_16: "length ip = 16 \<Longrightarrow> key16 ip = SetBytes ip"
  by (simp add: key16_def To16_def nil_or_def)

lemma compareIPs_key16:
  assumes "valid_len a" "valid_len b"
  shows "compareIPs a b = Some (if key16 a < key16 b then - 1 else if key16 a > key16 b then 1 else 0)"
proof (cases "length a = length b")
  case True
  have "compareIPs a b = compare_loop a b" using True by (simp add: compareIPs_def)
  also have "\<dots> = Some (if SetBytes a < SetBytes b then - 1 else if SetBytes a > SetBytes b then 1 else 0)"
    using True by (rule compare_loop_SetBytes)
  finally show ?thesis using assms True
    by (auto simp: valid_len_def key16_4 key16_16)
next
  case False
  have l: "length (nil_or (To16 a)) = length (nil_or (To16 b))"
    using assms by (auto simp: valid_len_def To16_def nil_or_def v4InV6Prefix_def)
  have "compareIPs a b = compare_loop (nil_or (To16 a)) (nil_or (To16 b))"
    using False by (simp add: compareIPs_def)
  then show ?thesis using compare_loop_SetBytes[OF l] by (simp add: key16_def)
qed

lemma less_StartIP_key16:
  "valid_len (StartIP a) \<Longrightarrow> valid_len (StartIP b) \<Longrightarrow>
   less_StartIP a b = Some (key16 (StartIP a) < key16 (StartIP b))"
  by (simp add: less_StartIP_def compareIPs_key16)

lemma family_ip_valid_len: "family_ip v ip \<Longrightarrow> valid_len ip"
  by (auto simp: family_ip_def valid_len_def To4_def split: if_splits)

lemma family_ip_decimal:
  assumes "family_ip v ip"
  shows "ipToDecimal ip = Some (address_value v ip)"
    and "address_value v ip = key16 ip - (if v then 0xffff * 2 ^ 32 else 0)"
    and "0 \<le> address_value v ip" and "address_value v ip < 2 ^ width_of v"
proof -
  show "ipToDecimal ip = Some (address_value v ip)"
    using assms
    by (auto simp: family_ip_def ipToDecimal_def address_value_def To4_def To16_def nil_or_def
        split: if_splits)
  show "address_value v ip = key16 ip - (if v then 0xffff * 2 ^ 32 else 0)"
  proof (cases v)
    case False
    then show ?thesis using assms by (simp add: family_ip_def address_value_def key16_16)
  next
    case True
    then consider "length ip = 4" | "length ip = 16" "take 12 ip = v4InV6Prefix"
      using assms by (auto simp: family_ip_def To4_def split: if_splits)
    then show ?thesis
    proof cases
      case 1
      then show ?thesis using True by (simp add: address_value_def To4_def nil_or_def key16_4)
    next
      case 2
      have "ip = take 12 ip @ drop 12 ip" by simp
      then have "SetBytes ip = SetBytes (v4InV6Prefix @ drop 12 ip)" using 2 by simp
      also have "\<dots> = 0xffff * 2 ^ 32 + SetBytes (drop 12 ip)"
        using 2 by (simp add: SetBytes_append v4InV6Prefix_def)
      finally show ?thesis using True 2
        by (simp add: address_value_def To4_def nil_or_def key16_16)
    qed
  qed
  have len: "length (if v then nil_or (To4 ip) else ip) = (if v then 4 else 16)"
    using assms by (auto simp: family_ip_def To4_def nil_or_def split: if_splits)
  show "0 \<le> address_value v ip" by (simp add: address_value_def SetBytes_nonneg)
  have "address_value v ip < 256 ^ (if v then 4 else 16)"
    unfolding address_value_def using SetBytes_less[of "if v then nil_or (To4 ip) else ip"] len
    by simp
  then show "address_value v ip < 2 ^ width_of v"
    by (cases v) (simp_all add: width_of_def maxBits_of_def)
qed

section \<open>The merging loop\<close>

lemma merged_simps [simp]:
  "First (merged lr c) = First lr" "Last (merged lr c) = max (Last lr) (Last c)"
  "IsIPv4 (merged lr c) = IsIPv4 lr"
  by (simp_all add: merged_def)

lemma aggregate_loop_Cons:
  "aggregate_loop lr (c # rest) acc =
     (if (if First c < 1 then 1 else First c) - 1 \<le> Last lr
      then aggregate_loop (merged lr c) rest acc
      else aggregate_loop c rest (acc @ [lr]))"
  by (simp add: merged_def Let_def)

lemma merged_interval:
  assumes "First lr \<le> First c" "(if First c < 1 then 1 else First c) - 1 \<le> Last lr" "0 \<le> Last lr"
  shows "interval_of (merged lr c) = interval_of lr \<union> interval_of c"
  using assms by (auto simp: interval_of_def max_def split: if_splits)

lemma aggregate_loop_union:
  assumes "sorted (map First (lr # rest))" "\<forall>d \<in> set (lr # rest). 0 \<le> Last d"
  shows "(\<Union>d \<in> set (aggregate_loop lr rest acc). interval_of d) =
         (\<Union>d \<in> set acc. interval_of d) \<union> interval_of lr \<union> (\<Union>d \<in> set rest. interval_of d)"
  using assms
proof (induction rest arbitrary: lr acc)
  case Nil
  then show ?case by auto
next
  case (Cons c rest)
  show ?case
  proof (cases "(if First c < 1 then 1 else First c) - 1 \<le> Last lr")
    case True
    have m: "interval_of (merged lr c) = interval_of lr \<union> interval_of c"
      using Cons.prems True by (intro merged_interval) auto
    have "(\<Union>d \<in> set (aggregate_loop (merged lr c) rest acc). interval_of d) =
          (\<Union>d \<in> set acc. interval_of d) \<union> interval_of (merged lr c) \<union> (\<Union>d \<in> set rest. interval_of d)"
      using Cons.prems by (intro Cons.IH) (auto simp: max_def)
    then show ?thesis unfolding aggregate_loop_Cons m using True by auto
  next
    case False
    have "(\<Union>d \<in> set (aggregate_loop c rest (acc @ [lr])). interval_of d) =
          (\<Union>d \<in> set (acc @ [lr]). interval_of d) \<union> interval_of c \<union> (\<Union>d \<in> set rest. interval_of d)"
      using Cons.prems by (intro Cons.IH) auto
    then show ?thesis unfolding aggregate_loop_Cons using False by auto
  qed
qed

lemma aggregate_loop_chain:
  assumes "sorted (map First (lr # rest))" "\<forall>d \<in> set (lr # rest). 0 \<le> Last d"
    and "sorted_wrt (\<lambda>a b. Last a + 1 < First b) acc" "\<forall>a \<in> set acc. Last a + 1 < First lr"
  shows "sorted_wrt (\<lambda>a b. Last a + 1 < First b) (aggregate_loop lr rest acc)"
  using assms
proof (induction rest arbitrary: lr acc)
  case Nil
  then show ?case by (auto simp: sorted_wrt_append)
next
  case (Cons c rest)
  show ?case
  proof (cases "(if First c < 1 then 1 else First c) - 1 \<le> Last lr")
    case True
    have "sorted_wrt (\<lambda>a b. Last a + 1 < First b) (aggregate_loop (merged lr c) rest acc)"
      using Cons.prems by (intro Cons.IH) (auto simp: max_def)
    then show ?thesis unfolding aggregate_loop_Cons using True by simp
  next
    case False
    have lr: "0 \<le> Last lr" using Cons.prems by simp
    have gap: "Last lr + 1 < First c" using False lr by (auto split: if_splits)
    have "sorted_wrt (\<lambda>a b. Last a + 1 < First b) (aggregate_loop c rest (acc @ [lr]))"
    proof (intro Cons.IH)
      show "sorted (map First (c # rest))" using Cons.prems by simp
      show "\<forall>d \<in> set (c # rest). 0 \<le> Last d" using Cons.prems by simp
      show "sorted_wrt (\<lambda>a b. Last a + 1 < First b) (acc @ [lr])"
        using Cons.prems by (auto simp: sorted_wrt_append)
      have "\<forall>a \<in> set acc. Last a + 1 < First c"
        using Cons.prems by fastforce
      then show "\<forall>a \<in> set (acc @ [lr]). Last a + 1 < First c" using gap by auto
    qed
    then show ?thesis unfolding aggregate_loop_Cons using False by simp
  qed
qed

lemma aggregate_loop_sorted:
  assumes "sorted (map First (lr # rest))"
    and "sorted (map First acc)" "\<forall>a \<in> set acc. First a \<le> First lr"
  shows "sorted (map First (aggregate_loop lr rest acc))"
  using assms
proof (induction rest arbitrary: lr acc)
  case Nil
  then show ?case by (auto simp: sorted_append)
next
  case (Cons c rest)
  show ?case
  proof (cases "(if First c < 1 then 1 else First c) - 1 \<le> Last lr")
    case True
    have "sorted (map First (aggregate_loop (merged lr c) rest acc))"
      using Cons.prems by (intro Cons.IH) auto
    then show ?thesis unfolding aggregate_loop_Cons using True by simp
  next
    case False
    have "sorted (map First (aggregate_loop c rest (acc @ [lr])))"
    proof (intro Cons.IH)
      show "sorted (map First (c # rest))" using Cons.prems by simp
      show "sorted (map First (acc @ [lr]))" using Cons.prems by (auto simp: sorted_append)
      have "\<forall>a \<in> set acc. First a \<le> First c" using Cons.prems by fastforce
      then show "\<forall>a \<in> set (acc @ [lr]). First a \<le> First c" using Cons.prems by auto
    qed
    then show ?thesis unfolding aggregate_loop_Cons using False by simp
  qed
qed

lemma aggregate_loop_pointwise:
  assumes "\<forall>d \<in> set acc \<union> set (lr # rest). P (First d) (Last d) (IsIPv4 d)"
    and "\<And>f l l' v. P f l v \<Longrightarrow> (\<exists>f'. P f' l' v) \<Longrightarrow> l \<le> l' \<Longrightarrow> P f l' v"
    and "\<forall>d \<in> set (lr # rest). IsIPv4 d = v"
  shows "\<forall>d \<in> set (aggregate_loop lr rest acc). P (First d) (Last d) (IsIPv4 d)"
  using assms(1,3)
proof (induction rest arbitrary: lr acc)
  case Nil
  then show ?case by auto
next
  case (Cons c rest)
  show ?case
  proof (cases "(if First c < 1 then 1 else First c) - 1 \<le> Last lr")
    case True
    have "P (First lr) (max (Last lr) (Last c)) (IsIPv4 lr)"
    proof (cases "Last lr \<le> Last c")
      case True
      have "P (First lr) (Last c) (IsIPv4 lr)"
      proof (rule assms(2))
        show "P (First lr) (Last lr) (IsIPv4 lr)" using Cons.prems by simp
        have "P (First c) (Last c) (IsIPv4 c)" "IsIPv4 c = IsIPv4 lr" using Cons.prems by simp_all
        then show "\<exists>f'. P f' (Last c) (IsIPv4 lr)" by auto
        show "Last lr \<le> Last c" by (rule True)
      qed
      then show ?thesis using True by (simp add: max_def)
    next
      case False
      then show ?thesis using Cons.prems by (simp add: max_def)
    qed
    then have "\<forall>d \<in> set (aggregate_loop (merged lr c) rest acc). P (First d) (Last d) (IsIPv4 d)"
      using Cons.prems by (intro Cons.IH) auto
    then show ?thesis unfolding aggregate_loop_Cons using True by simp
  next
    case False
    have "\<forall>d \<in> set (aggregate_loop c rest (acc @ [lr])). P (First d) (Last d) (IsIPv4 d)"
      using Cons.prems by (intro Cons.IH) auto
    then show ?thesis unfolding aggregate_loop_Cons using False by simp
  qed
qed

lemma toDecimalPairs_family:
  "\<forall>r \<in> set rs. family_range v r \<Longrightarrow> toDecimalPairs rs v = map (decimal_pair v) rs"
  by (induction rs) (auto simp: family_range_def family_ip_decimal(1) decimal_pair_def)

lemma interval_of_decimal_pair: "interval_of (decimal_pair v r) = range_interval v r"
  by (simp add: interval_of_def decimal_pair_def range_interval_def)

lemma sorted_family:
  assumes "\<forall>r \<in> set ys. family_range v r"
    and "sorted_wrt (\<lambda>a b. less_StartIP b a = Some False) ys"
  shows "sorted (map First (map (decimal_pair v) ys))"
proof -
  have "sorted_wrt (\<lambda>a b. address_value v (StartIP a) \<le> address_value v (StartIP b)) ys"
  proof (rule sorted_wrt_mono_rel[OF _ assms(2)])
    fix a b assume a: "a \<in> set ys" and b: "b \<in> set ys" and l: "less_StartIP b a = Some False"
    have fa: "family_ip v (StartIP a)" and fb: "family_ip v (StartIP b)"
      using assms(1) a b by (auto simp: family_range_def)
    have "less_StartIP b a = Some (key16 (StartIP b) < key16 (StartIP a))"
      using fa fb by (intro less_StartIP_key16 family_ip_valid_len)
    with l have "key16 (StartIP a) \<le> key16 (StartIP b)" by simp
    then show "address_value v (StartIP a) \<le> address_value v (StartIP b)"
      using family_ip_decimal(2)[OF fa] family_ip_decimal(2)[OF fb] by simp
  qed
  then show ?thesis
    by (simp add: sorted_wrt_map decimal_pair_def comp_def sorted_map)
qed

lemma rustStyleAggregated_char:
  assumes "is_sort_Slice sortSlice" and "\<forall>r \<in> set ranges. family_range v r"
  shows "\<exists>ys. mset ys = mset ranges \<and> sortSlice less_StartIP ranges = Some ys \<and>
              sorted (map First (map (decimal_pair v) ys)) \<and>
              rustStyleAggregated sortSlice ranges v = Some (aggregate_pairs (map (decimal_pair v) ys))"
proof -
  have "\<forall>r \<in> set ranges. valid_len (StartIP r)"
    using assms(2) by (auto simp: family_range_def family_ip_valid_len)
  then obtain ys where ys: "sortSlice less_StartIP ranges = Some ys" "mset ys = mset ranges"
    "sorted_wrt (\<lambda>a b. less_StartIP b a = Some False) ys"
    using assms(1) unfolding is_sort_Slice_def by blast
  have set: "set ys = set ranges" using ys(2) by (rule mset_eq_setD)
  have fam: "\<forall>r \<in> set ys. family_range v r" using assms(2) set by simp
  have s: "sorted (map First (map (decimal_pair v) ys))" using fam ys(3) by (rule sorted_family)
  have e: "ranges = [] \<Longrightarrow> ys = []" using ys(2) by simp
  have "rustStyleAggregated sortSlice ranges v = Some (aggregate_pairs (map (decimal_pair v) ys))"
    using e by (auto simp: rustStyleAggregated_def ys(1) toDecimalPairs_family[OF fam]
        aggregate_pairs_def split: list.splits)
  with ys s show ?thesis by blast
qed

lemma aggregate_pairs_props:
  assumes "sorted (map First ps)" "\<forall>d \<in> set ps. 0 \<le> Last d"
  shows "(\<Union>d \<in> set (aggregate_pairs ps). interval_of d) = (\<Union>d \<in> set ps. interval_of d)"
    and "sorted_wrt (\<lambda>a b. Last a + 1 < First b) (aggregate_pairs ps)"
    and "sorted (map First (aggregate_pairs ps))"
proof -
  show "(\<Union>d \<in> set (aggregate_pairs ps). interval_of d) = (\<Union>d \<in> set ps. interval_of d)"
  proof (cases ps)
    case Nil
    then show ?thesis by (simp add: aggregate_pairs_def)
  next
    case (Cons p qs)
    show ?thesis using aggregate_loop_union[of p qs "[]"] assms unfolding Cons
      by (simp add: aggregate_pairs_def)
  qed
  show "sorted_wrt (\<lambda>a b. Last a + 1 < First b) (aggregate_pairs ps)"
  proof (cases ps)
    case Nil
    then show ?thesis by (simp add: aggregate_pairs_def)
  next
    case (Cons p qs)
    show ?thesis using aggregate_loop_chain[of p qs "[]"] assms unfolding Cons
      by (simp add: aggregate_pairs_def)
  qed
  show "sorted (map First (aggregate_pairs ps))"
  proof (cases ps)
    case Nil
    then show ?thesis by (simp add: aggregate_pairs_def)
  next
    case (Cons p qs)
    show ?thesis using aggregate_loop_sorted[of p qs "[]"] assms unfolding Cons
      by (simp add: aggregate_pairs_def)
  qed
qed

lemma aggregate_pairs_pointwise:
  assumes "\<forall>d \<in> set ps. P (First d) (Last d) (IsIPv4 d)"
    and "\<And>f l l' v. P f l v \<Longrightarrow> (\<exists>f'. P f' l' v) \<Longrightarrow> l \<le> l' \<Longrightarrow> P f l' v"
    and "\<forall>d \<in> set ps. IsIPv4 d = v"
  shows "\<forall>d \<in> set (aggregate_pairs ps). P (First d) (Last d) (IsIPv4 d)"
proof (cases ps)
  case Nil
  then show ?thesis by (simp add: aggregate_pairs_def)
next
  case (Cons p qs)
  have "\<forall>d \<in> set (aggregate_loop p qs []). P (First d) (Last d) (IsIPv4 d)"
  proof (rule aggregate_loop_pointwise[where v = v and P = P])
    show "\<forall>d \<in> set [] \<union> set (p # qs). P (First d) (Last d) (IsIPv4 d)"
      using assms(1) unfolding Cons by simp
    show "\<forall>d \<in> set (p # qs). IsIPv4 d = v" using assms(3) unfolding Cons by simp
    show "\<And>f l l' v. P f l v \<Longrightarrow> \<exists>f'. P f' l' v \<Longrightarrow> l \<le> l' \<Longrightarrow> P f l' v"
      by (rule assms(2))
  qed
  then show ?thesis unfolding Cons by (simp add: aggregate_pairs_def)
qed

lemma chain_separated:
  assumes "sorted_wrt (\<lambda>a b. Last a + 1 < First b) out" "d \<in> set out" "e \<in> set out"
  shows "d = e \<or> Last d + 1 < First e \<or> Last e + 1 < First d"
proof -
  obtain i j where i: "i < length out" "out ! i = d" and j: "j < length out" "out ! j = e"
    using assms(2,3) by (auto simp: in_set_conv_nth)
  consider "i < j" | "j < i" | "i = j" by linarith
  then show ?thesis
  proof cases
    case 1
    then have "Last (out ! i) + 1 < First (out ! j)"
      using assms(1) j(1) by (simp add: sorted_wrt_iff_nth_less)
    then show ?thesis using i j by simp
  next
    case 2
    then have "Last (out ! j) + 1 < First (out ! i)"
      using assms(1) i(1) by (simp add: sorted_wrt_iff_nth_less)
    then show ?thesis using i j by simp
  next
    case 3
    then show ?thesis using i j by simp
  qed
qed

lemma maximal_intervals_of_chain:
  assumes ch: "sorted_wrt (\<lambda>a b. Last a + 1 < First b) out"
    and ne: "\<forall>d \<in> set out. First d \<le> Last d"
    and U: "U = (\<Union>d \<in> set out. interval_of d)"
  shows "(\<exists>d \<in> set out. First d = lo \<and> Last d = hi) \<longleftrightarrow> is_maximal_interval U lo hi"
proof
  have inU: "x \<in> U \<longleftrightarrow> (\<exists>e \<in> set out. First e \<le> x \<and> x \<le> Last e)" for x
    unfolding U by (auto simp: interval_of_def)
  {
    assume "\<exists>d \<in> set out. First d = lo \<and> Last d = hi"
    then obtain d where d: "d \<in> set out" "First d = lo" "Last d = hi" by blast
    have 1: "lo \<le> hi" using ne d by auto
    have 2: "{lo .. hi} \<subseteq> U" using d inU by auto
    have 3: "x \<notin> U" if x: "x = lo - 1 \<or> x = hi + 1" for x
    proof
      assume "x \<in> U"
      then obtain e where e: "e \<in> set out" "First e \<le> x" "x \<le> Last e"
        using inU by blast
      have "d = e \<or> Last d + 1 < First e \<or> Last e + 1 < First d"
        by (rule chain_separated[OF ch d(1) e(1)])
      then show False
      proof (elim disjE)
        assume "d = e"
        then have "First e = lo" "Last e = hi" using d by simp_all
        then show False using x e(2,3) 1 by linarith
      next
        assume "Last d + 1 < First e"
        then show False using x d(2,3) e(2,3) 1 by linarith
      next
        assume "Last e + 1 < First d"
        then show False using x d(2,3) e(2,3) 1 by linarith
      qed
    qed
    have "lo - 1 \<notin> U" "hi + 1 \<notin> U" using 3 by simp_all
    then show "is_maximal_interval U lo hi" using 1 2 unfolding is_maximal_interval_def by simp
  }
  {
    assume m: "is_maximal_interval U lo hi"
    then have m1: "lo \<le> hi" and m2: "\<And>x. lo \<le> x \<Longrightarrow> x \<le> hi \<Longrightarrow> x \<in> U"
      and m3: "lo - 1 \<notin> U" and m4: "hi + 1 \<notin> U"
      unfolding is_maximal_interval_def by auto
    have "lo \<in> U" using m1 m2 by simp
    then obtain d where d: "d \<in> set out" "First d \<le> lo" "lo \<le> Last d"
      using inU by blast
    have dU: "\<And>x. First d \<le> x \<Longrightarrow> x \<le> Last d \<Longrightarrow> x \<in> U" using d(1) inU by blast
    have a: "First d = lo"
    proof (rule ccontr)
      assume "First d \<noteq> lo"
      then have "First d \<le> lo - 1" "lo - 1 \<le> Last d" using d by linarith+
      then show False using dU m3 by blast
    qed
    have b: "Last d = hi"
    proof (rule ccontr)
      assume n: "Last d \<noteq> hi"
      show False
      proof (cases "Last d < hi")
        case True
        then have "lo \<le> Last d + 1" "Last d + 1 \<le> hi" using d by linarith+
        then have "Last d + 1 \<in> U" by (rule m2)
        then obtain e where e: "e \<in> set out" "First e \<le> Last d + 1" "Last d + 1 \<le> Last e"
          using inU by blast
        have "d = e \<or> Last d + 1 < First e \<or> Last e + 1 < First d"
          by (rule chain_separated[OF ch d(1) e(1)])
        then show False
        proof (elim disjE)
          assume "d = e"
          then have "Last e = Last d" by simp
          then show False using e(2,3) by linarith
        next
          assume "Last d + 1 < First e"
          then show False using e(2,3) by linarith
        next
          assume "Last e + 1 < First d"
          then show False using e(2,3) d(2,3) by linarith
        qed
      next
        case False
        then have "First d \<le> hi + 1" "hi + 1 \<le> Last d" using n d a m1 by linarith+
        then show False using dU m4 by blast
      qed
    qed
    show "\<exists>d \<in> set out. First d = lo \<and> Last d = hi" using d(1) a b by blast
  }
qed

section \<open>The aggregator\<close>

lemma sort_by_key16_ok: "is_sort_Slice sort_by_key16"
  unfolding is_sort_Slice_def
proof (intro allI impI)
  fix xs :: "IPRange list"
  assume v: "\<forall>r \<in> set xs. valid_len (StartIP r)"
  define ys where "ys = sort_key (\<lambda>r. key16 (StartIP r)) xs"
  have 1: "sort_by_key16 less_StartIP xs = Some ys" by (simp add: sort_by_key16_def ys_def)
  have 2: "mset ys = mset xs" by (simp add: ys_def)
  have "sorted (map (\<lambda>r. key16 (StartIP r)) ys)" unfolding ys_def by (rule sorted_sort_key)
  then have s: "sorted_wrt (\<lambda>a b. key16 (StartIP a) \<le> key16 (StartIP b)) ys"
    by (simp add: sorted_map)
  have 3: "sorted_wrt (\<lambda>a b. less_StartIP b a = Some False) ys"
  proof (rule sorted_wrt_mono_rel[OF _ s])
    fix a b assume "a \<in> set ys" "b \<in> set ys" and le: "key16 (StartIP a) \<le> key16 (StartIP b)"
    then have "valid_len (StartIP a)" "valid_len (StartIP b)" using v by (simp_all add: ys_def)
    then show "less_StartIP b a = Some False" using le by (simp add: less_StartIP_key16)
  qed
  show "\<exists>ys. sort_by_key16 less_StartIP xs = Some ys \<and> mset ys = mset xs \<and>
             sorted_wrt (\<lambda>a b. less_StartIP b a = Some False) ys"
    using 1 2 3 by blast
qed

lemma sorted_input_kept:
  assumes "is_sort_Slice sortSlice" and "\<forall>r \<in> set ranges. family_range v r"
    and st: "sorted_wrt (<) (map (\<lambda>r. address_value v (StartIP r)) ranges)"
  shows "sortSlice less_StartIP ranges = Some ranges"
proof -
  let ?F = "\<lambda>r. address_value v (StartIP r)"
  obtain ys where ys: "mset ys = mset ranges" "sortSlice less_StartIP ranges = Some ys"
    "sorted (map First (map (decimal_pair v) ys))"
    using rustStyleAggregated_char[OF assms(1,2)] by blast
  have m: "map First (map (decimal_pair v) ys) = map ?F ys"
    by (simp add: decimal_pair_def comp_def)
  have sy: "sorted (map ?F ys)" using ys(3) unfolding m .
  have sx: "sorted (map ?F ranges)" and dx: "distinct (map ?F ranges)"
    using st by (simp_all add: strict_sorted_iff)
  have "mset (map ?F ys) = mset (map ?F ranges)" using ys(1) by (metis mset_map)
  then have "sort (map ?F ranges) = map ?F ys" using sy by (rule properties_for_sort)
  moreover have "sort (map ?F ranges) = map ?F ranges" using sx by (simp add: sorted_sort_id)
  ultimately have e: "map ?F ys = map ?F ranges" by simp
  have "inj_on ?F (set ranges)" using dx by (simp add: distinct_map)
  moreover have "set ys = set ranges" using ys(1) by (rule mset_eq_setD)
  ultimately have "inj_on ?F (set ys \<union> set ranges)" by simp
  then have "ys = ranges" using e by (simp add: inj_on_map_eq_map)
  then show ?thesis using ys(2) by simp
qed

lemma S4_family: "\<forall>r \<in> set S4_input. family_range True r"
  by (simp add: S4_input_def range_of_def family_range_def family_ip_def To4_def)

lemma S4_values:
  "map (\<lambda>r. address_value True (StartIP r)) S4_input = [16777216, 16777472, 16777984]"
  "map (\<lambda>r. address_value True (EndIP r)) S4_input = [16777471, 16777727, 16778239]"
  by (simp_all add: S4_input_def range_of_def address_value_def To4_def nil_or_def)

lemma S4_aggregated:
  assumes "is_sort_Slice sortSlice"
  shows "rustStyleAggregated sortSlice S4_input True = Some S4_output"
proof -
  have s: "sortSlice less_StartIP S4_input = Some S4_input"
    using assms S4_family by (rule sorted_input_kept) (simp add: S4_values)
  have ne: "S4_input \<noteq> []" by (simp add: S4_input_def)
  have p: "toDecimalPairs S4_input True =
      [\<lparr>First = 16777216, Last = 16777471, IsIPv4 = True\<rparr>,
       \<lparr>First = 16777472, Last = 16777727, IsIPv4 = True\<rparr>,
       \<lparr>First = 16777984, Last = 16778239, IsIPv4 = True\<rparr>]"
    using S4_values unfolding toDecimalPairs_family[OF S4_family]
    by (simp add: S4_input_def decimal_pair_def)
  show ?thesis using ne by (simp add: rustStyleAggregated_def s p S4_output_def)
qed

lemma S4_nonempty: "\<forall>r \<in> set S4_input. range_nonempty True r"
  by (simp add: S4_input_def range_of_def range_nonempty_def address_value_def To4_def nil_or_def)

text \<open>
  The aggregator on lists whose addresses all belong to the list's family. Let
  \<open>sort.Slice\<close> behave as the library promises. Then \<open>rustStyleAggregated\<close> returns a list
  of intervals whose union is the union of the input ranges, that is sorted by first
  address and in which every interval ends at least two below the start of every later
  one. When every input range has its first address at most its last, the returned
  intervals are exactly the maximal intervals of that union. On the ranges of scenario
  S4 it returns (1.0.0.0, 1.0.1.255), (1.0.3.0, 1.0.3.255).
\<close>

lemma rustStyleAggregated_family_contract:
  assumes "is_sort_Slice sortSlice" and "\<forall>r \<in> set ranges. family_range isIPv4 r"
  shows "(\<exists>out. rustStyleAggregated sortSlice ranges isIPv4 = Some out \<and>
            (\<Union>d \<in> set out. interval_of d) = (\<Union>r \<in> set ranges. range_interval isIPv4 r) \<and>
            sorted (map First out) \<and>
            sorted_wrt (\<lambda>a b. Last a + 1 < First b) out \<and>
            ((\<forall>r \<in> set ranges. range_nonempty isIPv4 r) \<longrightarrow>
               (\<forall>lo hi. (\<exists>d \<in> set out. First d = lo \<and> Last d = hi) \<longleftrightarrow>
                  is_maximal_interval (\<Union>r \<in> set ranges. range_interval isIPv4 r) lo hi))) \<and>
         rustStyleAggregated sortSlice S4_input True = Some S4_output"
proof -
  obtain ys where ys: "mset ys = mset ranges"
    "sorted (map First (map (decimal_pair isIPv4) ys))"
    "rustStyleAggregated sortSlice ranges isIPv4 = Some (aggregate_pairs (map (decimal_pair isIPv4) ys))"
    using rustStyleAggregated_char[OF assms] by blast
  define ps where "ps = map (decimal_pair isIPv4) ys"
  define out where "out = aggregate_pairs ps"
  define U where "U = (\<Union>r \<in> set ranges. range_interval isIPv4 r)"
  have set: "set ys = set ranges" using ys(1) by (rule mset_eq_setD)
  have nn: "\<forall>d \<in> set ps. 0 \<le> Last d"
    using assms(2) set
    by (auto simp: ps_def decimal_pair_def family_range_def family_ip_decimal(3))
  have so: "sorted (map First ps)" using ys(2) by (simp add: ps_def)
  have "(\<Union>d \<in> set ps. interval_of d) = U"
    unfolding ps_def U_def using set by (simp add: interval_of_decimal_pair)
  then have 1: "(\<Union>d \<in> set out. interval_of d) = U"
    using aggregate_pairs_props(1)[OF so nn] by (simp add: out_def)
  have 2: "sorted (map First out)" unfolding out_def by (rule aggregate_pairs_props(3)[OF so nn])
  have 3: "sorted_wrt (\<lambda>a b. Last a + 1 < First b) out"
    unfolding out_def by (rule aggregate_pairs_props(2)[OF so nn])
  have 4: "\<forall>lo hi. (\<exists>d \<in> set out. First d = lo \<and> Last d = hi) \<longleftrightarrow> is_maximal_interval U lo hi"
    if ne: "\<forall>r \<in> set ranges. range_nonempty isIPv4 r"
  proof -
    have "\<forall>d \<in> set out. (\<lambda>f l v. f \<le> l) (First d) (Last d) (IsIPv4 d)"
      unfolding out_def
    proof (rule aggregate_pairs_pointwise[where v = isIPv4 and P = "\<lambda>f l v. f \<le> l"])
      show "\<forall>d \<in> set ps. First d \<le> Last d"
        using ne set by (auto simp: ps_def decimal_pair_def range_nonempty_def)
      show "\<forall>d \<in> set ps. IsIPv4 d = isIPv4" by (auto simp: ps_def decimal_pair_def)
      show "\<And>f l l' v. f \<le> l \<Longrightarrow> \<exists>f'. f' \<le> l' \<Longrightarrow> l \<le> l' \<Longrightarrow> f \<le> (l' :: int)" by simp
    qed
    then have n: "\<forall>d \<in> set out. First d \<le> Last d" by simp
    show ?thesis using maximal_intervals_of_chain[OF 3 n 1[symmetric]] by blast
  qed
  have "rustStyleAggregated sortSlice ranges isIPv4 = Some out" using ys(3) by (simp add: out_def ps_def)
  then have "\<exists>out. rustStyleAggregated sortSlice ranges isIPv4 = Some out \<and>
            (\<Union>d \<in> set out. interval_of d) = U \<and>
            sorted (map First out) \<and>
            sorted_wrt (\<lambda>a b. Last a + 1 < First b) out \<and>
            ((\<forall>r \<in> set ranges. range_nonempty isIPv4 r) \<longrightarrow>
               (\<forall>lo hi. (\<exists>d \<in> set out. First d = lo \<and> Last d = hi) \<longleftrightarrow>
                  is_maximal_interval U lo hi))"
    using 1 2 3 4 by blast
  then show ?thesis unfolding U_def using S4_aggregated[OF assms(1)] by blast
qed


section \<open>The aggregator on a last address with the IPv4-mapped prefix\<close>

lemma extractor_builds_81:
  "map_option (\<lambda>c. leaf_range c [0x55, 0x53] ''IPv6'') (pathToCIDR (replicate 80 0 @ [0]) False) =
     Some range_low81"
  "map_option (\<lambda>c. leaf_range c [0x55, 0x53] ''IPv6'') (pathToCIDR (replicate 80 0 @ [1]) False) =
     Some range_high81"
  "\<not> isIPv4MappedPath (replicate 80 0 @ [0])" "\<not> isIPv4MappedPath (replicate 80 0 @ [1])"
  by code_simp+

lemma sorted_by_key16_kept:
  assumes "is_sort_Slice sortSlice" and v: "\<forall>r \<in> set ranges. valid_len (StartIP r)"
    and st: "sorted_wrt (<) (map (\<lambda>r. key16 (StartIP r)) ranges)"
  shows "sortSlice less_StartIP ranges = Some ranges"
proof -
  let ?F = "\<lambda>r. key16 (StartIP r)"
  obtain ys where ys: "sortSlice less_StartIP ranges = Some ys" "mset ys = mset ranges"
    "sorted_wrt (\<lambda>a b. less_StartIP b a = Some False) ys"
    using assms(1) v unfolding is_sort_Slice_def by blast
  have set: "set ys = set ranges" using ys(2) by (rule mset_eq_setD)
  have "sorted_wrt (\<lambda>a b. ?F a \<le> ?F b) ys"
  proof (rule sorted_wrt_mono_rel[OF _ ys(3)])
    fix a b assume a: "a \<in> set ys" and b: "b \<in> set ys" and l: "less_StartIP b a = Some False"
    have "less_StartIP b a = Some (?F b < ?F a)"
      using a b v set by (intro less_StartIP_key16) auto
    with l show "?F a \<le> ?F b" by simp
  qed
  then have sy: "sorted (map ?F ys)" by (simp add: sorted_map)
  have sx: "sorted (map ?F ranges)" and dx: "distinct (map ?F ranges)"
    using st by (simp_all add: strict_sorted_iff)
  have "mset (map ?F ys) = mset (map ?F ranges)" using ys(2) by (metis mset_map)
  then have "sort (map ?F ranges) = map ?F ys" using sy by (rule properties_for_sort)
  moreover have "sort (map ?F ranges) = map ?F ranges" using sx by (simp add: sorted_sort_id)
  ultimately have e: "map ?F ys = map ?F ranges" by simp
  have "inj_on ?F (set ranges)" using dx by (simp add: distinct_map)
  then have "inj_on ?F (set ys \<union> set ranges)" using set by simp
  then have "ys = ranges" using e by (simp add: inj_on_map_eq_map)
  then show ?thesis using ys(1) by simp
qed

lemma range_81_values:
  "ipToDecimal (StartIP range_low81) = Some 0"
  "ipToDecimal (EndIP range_low81) = Some (2 ^ 47 - 1)"
  "ipToDecimal (StartIP range_high81) = Some (2 ^ 47)"
  "ipToDecimal (EndIP range_high81) = Some (2 ^ 32 - 1)"
  "key16 (StartIP range_low81) = 0" "key16 (StartIP range_high81) = 2 ^ 47"
  "address_value False (StartIP range_high81) = 2 ^ 47"
  "address_value False (EndIP range_high81) = 2 ^ 48 - 1"
  by (simp_all add: range_low81_def range_high81_def ipToDecimal_def To4_def To16_def
      v4InV6Prefix_def key16_def nil_or_def address_value_def)

lemma range_81_sorted:
  assumes "is_sort_Slice sortSlice"
  shows "sortSlice less_StartIP [range_low81, range_high81] = Some [range_low81, range_high81]"
  using assms
proof (rule sorted_by_key16_kept)
  show "\<forall>r \<in> set [range_low81, range_high81]. valid_len (StartIP r)"
    by (simp add: valid_len_def range_low81_def range_high81_def)
  show "sorted_wrt (<) (map (\<lambda>r. key16 (StartIP r)) [range_low81, range_high81])"
    by (simp add: range_81_values)
qed

text \<open>
  Claim C4 fails on the code. The extractor builds the IPv6 ranges \<open>::/81\<close> and
  \<open>::8000:0:0/81\<close> for two sibling leaves; the list is sorted by first address and its
  union is the interval from 0 to \<open>2 ^ 48 - 1\<close>. The last address of the second range,
  \<open>::ffff:ffff:ffff\<close>, is converted by \<open>ipToDecimal\<close> as the IPv4 address
  255.255.255.255, that is to \<open>2 ^ 32 - 1\<close>, and \<open>rustStyleAggregated\<close> returns the single
  interval from 0 to \<open>2 ^ 47 - 1\<close>: the second range, from \<open>2 ^ 47\<close> to \<open>2 ^ 48 - 1\<close>, is
  lost.
\<close>

theorem C4_mapped_last_address_loses_range:
  assumes "is_sort_Slice sortSlice"
  shows "rustStyleAggregated sortSlice [range_low81, range_high81] False =
           Some [\<lparr>First = 0, Last = 2 ^ 47 - 1, IsIPv4 = False\<rparr>] \<and>
         ipToDecimal (EndIP range_high81) = Some (2 ^ 32 - 1) \<and>
         range_interval False range_high81 = {2 ^ 47 .. 2 ^ 48 - 1} \<and>
         (\<Union>d \<in> set [\<lparr>First = 0, Last = 2 ^ 47 - 1, IsIPv4 = False\<rparr>]. interval_of d) \<noteq>
           (\<Union>r \<in> set [range_low81, range_high81]. range_interval False r)"
proof -
  have 1: "rustStyleAggregated sortSlice [range_low81, range_high81] False =
           Some [\<lparr>First = 0, Last = 2 ^ 47 - 1, IsIPv4 = False\<rparr>]"
    by (simp add: rustStyleAggregated_def range_81_sorted[OF assms] range_81_values)
  have 2: "range_interval False range_high81 = {2 ^ 47 .. 2 ^ 48 - 1}"
    unfolding range_interval_def range_81_values by simp
  have 3: "(\<Union>d \<in> set [\<lparr>First = 0, Last = 2 ^ 47 - 1, IsIPv4 = False\<rparr>]. interval_of d) \<noteq>
           (\<Union>r \<in> set [range_low81, range_high81]. range_interval False r)"
  proof
    assume e: "(\<Union>d \<in> set [\<lparr>First = 0, Last = 2 ^ 47 - 1, IsIPv4 = False\<rparr>]. interval_of d) =
           (\<Union>r \<in> set [range_low81, range_high81]. range_interval False r)"
    have "(2 :: int) ^ 47 \<in> range_interval False range_high81" unfolding 2 by simp
    then have "(2 :: int) ^ 47 \<in> (\<Union>r \<in> set [range_low81, range_high81]. range_interval False r)"
      by simp
    then have "(2 :: int) ^ 47 \<in> (\<Union>d \<in> set [\<lparr>First = 0, Last = 2 ^ 47 - 1, IsIPv4 = False\<rparr>]. interval_of d)"
      unfolding e .
    then show False by (simp add: interval_of_def)
  qed
  show ?thesis by (intro conjI 1 2 3 range_81_values(4))
qed

theorem C4_mapped_last_address_loses_range_witness:
  "is_sort_Slice sort_by_key16 \<and>
   rustStyleAggregated sort_by_key16 [range_low81, range_high81] False =
     Some [\<lparr>First = 0, Last = 2 ^ 47 - 1, IsIPv4 = False\<rparr>] \<and>
   ipToDecimal (EndIP range_high81) = Some (2 ^ 32 - 1) \<and>
   range_interval False range_high81 = {2 ^ 47 .. 2 ^ 48 - 1} \<and>
   (\<Union>d \<in> set [\<lparr>First = 0, Last = 2 ^ 47 - 1, IsIPv4 = False\<rparr>]. interval_of d) \<noteq>
     (\<Union>r \<in> set [range_low81, range_high81]. range_interval False r)"
  by (rule conjI[OF sort_by_key16_ok C4_mapped_last_address_loses_range[OF sort_by_key16_ok]])

section \<open>Masks, bytes and trailing zeros\<close>

lemma mask_bytes_zero: "mask_bytes 0 l = replicate l 0"
  by (induction l) auto

lemma length_mask_bytes: "length (mask_bytes n l) = l"
  by (induction l arbitrary: n) auto

lemma uint_ff: "uint (0xff :: byte) = 255"
  by simp

lemma SetBytes_replicate_ff: "SetBytes (replicate n 0xff) = 256 ^ n - 1"
proof (induction n)
  case 0
  then show ?case by simp
next
  case (Suc n)
  have "SetBytes (replicate (Suc n) 0xff) = uint (0xff :: byte) * 256 ^ n + SetBytes (replicate n 0xff)"
    by simp
  also have "\<dots> = 255 * 256 ^ n + (256 ^ n - 1)" unfolding uint_ff Suc by simp
  finally show ?case by simp
qed

lemma SetBytes_replicate_0: "SetBytes (replicate n 0) = 0"
  by (induction n) auto

lemma partial_mask: "drop_bit n (0xff :: byte) = mask (8 - n)"
proof -
  have "(0xff :: byte) = mask 8" by (simp add: mask_eq_exp_minus_1)
  then have "drop_bit n (0xff :: byte) = drop_bit n (mask 8 :: byte)" by simp
  also have "\<dots> = mask (8 - n)"
    by (rule bit_eqI) (auto simp: bit_drop_bit_eq bit_mask_iff)
  finally show ?thesis .
qed

lemma byte_low_bits:
  fixes b :: byte
  assumes "2 ^ k dvd uint b" "n < k"
  shows "\<not> bit b n"
proof -
  have "take_bit k (uint b) = 0" using assms(1) by (simp add: take_bit_eq_0_iff)
  then have "\<not> bit (take_bit k (uint b)) n" by simp
  then have "\<not> bit (uint b) n" using assms(2) by (simp add: bit_take_bit_iff)
  then show ?thesis by (auto simp: bit_uint_iff dest: bit_imp_le_length)
qed

lemma byte_and_not_mask:
  fixes b :: byte
  assumes "2 ^ k dvd uint b"
  shows "b AND NOT (mask k) = b"
proof (rule bit_eqI)
  fix n
  show "bit (b AND NOT (mask k)) n = bit b n"
    using byte_low_bits[OF assms, of n]
    by (auto simp: bit_and_iff bit_not_iff bit_mask_iff dest: bit_imp_le_length)
qed

lemma byte_or_mask:
  fixes b :: byte
  assumes "2 ^ k dvd uint b" and "k \<le> 8"
  shows "uint (b OR mask k) = uint b + 2 ^ k - 1"
proof -
  have "uint (b OR mask k) = uint b OR uint (mask k :: byte)" by (simp add: uint_or)
  also have "uint (mask k :: byte) = mask k" using assms(2) by (simp add: uint_mask_eq min_def)
  also have "uint b OR (mask k :: int) = uint b + mask k"
  proof (rule disjunctive_add[symmetric])
    fix n
    show "\<not> bit (uint b) n \<or> \<not> bit (mask k :: int) n"
      using byte_low_bits[OF assms(1), of n] by (auto simp: bit_mask_iff bit_uint_iff)
  qed
  finally show ?thesis by (simp add: mask_eq_exp_minus_1)
qed

lemma mask_apply:
  assumes "ones \<le> 8 * length ip" "2 ^ (8 * length ip - ones) dvd SetBytes ip"
  shows "map2 (\<lambda>a m. a AND m) ip (mask_bytes ones (length ip)) = ip \<and>
         SetBytes (map2 (\<lambda>a m. a OR NOT m) ip (mask_bytes ones (length ip))) =
           SetBytes ip + 2 ^ (8 * length ip - ones) - 1"
  using assms
proof (induction ip arbitrary: ones)
  case Nil
  then show ?case by simp
next
  case (Cons b bs)
  define l where "l = length bs"
  define S where "S = SetBytes bs"
  define X :: int where "X = 256 ^ l"
  have X2: "X = 2 ^ (8 * l)" by (simp add: X_def power_mult)
  have Sb: "0 \<le> S" "S < X" using SetBytes_bounds[of bs] by (simp_all add: S_def X_def l_def)
  have V: "SetBytes (b # bs) = uint b * X + S" by (simp add: S_def X_def l_def)
  have e: "8 * length (b # bs) = 8 * l + 8" by (simp add: l_def)
  have dv: "2 ^ (8 * l + 8 - ones) dvd uint b * X + S"
    using Cons.prems(2) unfolding V e .
  show ?case
  proof (cases "ones \<ge> 8")
    case True
    define h where "h = 8 * l - (ones - 8)"
    have h: "8 * l + 8 - ones = h" "h \<le> 8 * l" using True Cons.prems(1) by (simp_all add: h_def l_def)
    have "(2::int) ^ h dvd X" unfolding X2 using h(2) by (rule le_imp_power_dvd)
    then have "(2::int) ^ h dvd uint b * X" by simp
    then have dS: "(2::int) ^ h dvd S" using dv unfolding h(1) by (simp add: dvd_add_right_iff)
    have IH: "map2 (\<lambda>a m. a AND m) bs (mask_bytes (ones - 8) (length bs)) = bs \<and>
         SetBytes (map2 (\<lambda>a m. a OR NOT m) bs (mask_bytes (ones - 8) (length bs))) =
           SetBytes bs + 2 ^ (8 * length bs - (ones - 8)) - 1"
      using True Cons.prems(1) dS by (intro Cons.IH) (simp_all add: h_def l_def S_def)
    have m: "mask_bytes ones (length (b # bs)) = 0xff # mask_bytes (ones - 8) (length bs)"
      using True by simp
    have m1: "(0xff :: byte) = - 1" by simp
    have ff: "b AND 0xff = b" "b OR NOT 0xff = b" unfolding m1 by simp_all
    show ?thesis unfolding m using IH ff h(1) True
      by (simp add: length_mask_bytes l_def h_def)
  next
    case False
    define k where "k = 8 - ones"
    have k: "8 * l + 8 - ones = 8 * l + k" "k \<le> 8" "ones = 8 - k" using False by (simp_all add: k_def)
    have p: "(2::int) ^ (8 * l + k) = 2 ^ k * X" by (simp add: X2 power_add)
    have "X dvd 2 ^ k * X" by simp
    then have "X dvd uint b * X + S" using dv unfolding k(1) p by (rule dvd_trans)
    then have "X dvd S" by (simp add: dvd_add_right_iff)
    then have S0: "S = 0" using Sb by (meson zdvd_not_zless linorder_not_less order_le_less)
    have "2 ^ k * X dvd uint b * X" using dv unfolding k(1) p S0 by simp
    then have db: "2 ^ k dvd uint b" using Sb by simp
    obtain n where bs0: "bs = replicate n 0" using S0 SetBytes_zero_iff[of bs] by (auto simp: S_def)
    have n: "n = l" using bs0 by (simp add: l_def)
    have m: "mask_bytes ones (Suc l) = NOT (mask k) # replicate l 0"
      using False by (simp add: partial_mask k_def mask_bytes_zero)
    have z: "map2 (\<lambda>a m. a AND m) (replicate l 0) (replicate l (0::byte)) = replicate l 0"
      by (induction l) simp_all
    have o: "map2 (\<lambda>a m. a OR NOT m) (replicate l 0) (replicate l (0::byte)) = replicate l 0xff"
      by (induction l) simp_all
    have len: "length (b # bs) = Suc l" by (simp add: l_def)
    have 1: "map2 (\<lambda>a m. a AND m) (b # bs) (mask_bytes ones (length (b # bs))) = b # bs"
      unfolding len m unfolding bs0 n using byte_and_not_mask[OF db] z by simp
    have "map2 (\<lambda>a m. a OR NOT m) (b # bs) (mask_bytes ones (length (b # bs))) =
          (b OR mask k) # replicate l 0xff"
      unfolding len m unfolding bs0 n using o by simp
    then have "SetBytes (map2 (\<lambda>a m. a OR NOT m) (b # bs) (mask_bytes ones (length (b # bs)))) =
          SetBytes ((b OR mask k) # replicate l 0xff)" by simp
    also have "\<dots> = (uint b + 2 ^ k - 1) * X + (X - 1)"
      using byte_or_mask[OF db k(2)] by (simp add: SetBytes_replicate_ff X_def)
    also have "\<dots> = SetBytes (b # bs) + 2 ^ (8 * length (b # bs) - ones) - 1"
      unfolding V S0 e k(1) p by (simp add: algebra_simps)
    finally show ?thesis using 1 by simp
  qed
qed

lemma partial_byte_ones_list:
  "list_all (\<lambda>ones. NOT (drop_bit ones (0xff :: byte)) \<noteq> 0xff \<and>
         lead_ones 8 (NOT (drop_bit ones (0xff :: byte))) = ones \<and>
         push_bit ones (NOT (drop_bit ones (0xff :: byte))) = 0) [0, 1, 2, 3, 4, 5, 6, 7]"
  by code_simp

lemma partial_byte_ones:
  assumes "ones < 8"
  shows "NOT (drop_bit ones (0xff :: byte)) \<noteq> 0xff \<and>
         lead_ones 8 (NOT (drop_bit ones (0xff :: byte))) = ones \<and>
         push_bit ones (NOT (drop_bit ones (0xff :: byte))) = 0"
proof -
  have "ones \<in> set [0, 1, 2, 3, 4, 5, 6, 7]" using assms by (simp; linarith)
  then show ?thesis using partial_byte_ones_list unfolding list_all_iff by blast
qed

lemma simpleMaskLength_mask_bytes:
  "ones \<le> 8 * l \<Longrightarrow> simpleMaskLength (mask_bytes ones l) = int ones"
proof (induction l arbitrary: ones)
  case 0
  then show ?case by simp
next
  case (Suc l)
  show ?case
  proof (cases "ones \<ge> 8")
    case True
    then have "simpleMaskLength (mask_bytes (ones - 8) l) = int (ones - 8)"
      using Suc.prems by (intro Suc.IH) simp
    then show ?thesis using True by (simp add: Let_def)
  next
    case False
    then have o: "ones < 8" by simp
    have z: "\<not> list_ex (\<lambda>b. b \<noteq> 0) (replicate l (0 :: byte))" by (simp add: list_ex_iff)
    show ?thesis using False partial_byte_ones[OF o] z
      by (simp add: mask_bytes_zero Let_def)
  qed
qed

lemma SetBytes_snoc: "SetBytes (bs @ [b]) = SetBytes bs * 256 + uint b"
  by (simp add: SetBytes_append)

lemma SetBytes_Bytes_nat: "SetBytes (Bytes_nat n) = int n"
proof (induction n rule: Bytes_nat.induct)
  case (1 n)
  show ?case
  proof (cases "n = 0")
    case True
    then show ?thesis by (simp add: Bytes_nat.simps)
  next
    case False
    have u: "uint (of_nat (n mod 256) :: byte) = int (n mod 256)"
      by (simp add: uint_nat unat_of_nat)
    have "SetBytes (Bytes_nat n) = SetBytes (Bytes_nat (n div 256) @ [of_nat (n mod 256)])"
      using False by (subst Bytes_nat.simps) simp
    also have "\<dots> = int (n div 256) * 256 + int (n mod 256)"
      using 1[OF False] u by (simp add: SetBytes_snoc)
    also have "\<dots> = int n" by (simp add: zdiv_int zmod_int)
    finally show ?thesis .
  qed
qed

lemma length_Bytes_nat: "n < 256 ^ k \<Longrightarrow> length (Bytes_nat n) \<le> k"
proof (induction n arbitrary: k rule: Bytes_nat.induct)
  case (1 n)
  show ?case
  proof (cases "n = 0")
    case True
    then show ?thesis by (simp add: Bytes_nat.simps)
  next
    case False
    then obtain k' where k: "k = Suc k'" using 1(2) by (cases k) auto
    have "n div 256 < 256 ^ k'" using 1(2) unfolding k by (simp add: less_mult_imp_div_less)
    then have "length (Bytes_nat (n div 256)) \<le> k'" using 1(1)[OF False] by simp
    then show ?thesis using False k by (subst Bytes_nat.simps) simp
  qed
qed

lemma SetBytes_replicate_0_append: "SetBytes (replicate n 0 @ bs) = SetBytes bs"
  by (simp add: SetBytes_append SetBytes_replicate_0)

lemma decimalToIP_value:
  assumes "0 \<le> x" "x < 2 ^ width_of v"
  shows "length (decimalToIP x v) = (if v then 4 else 16)" and "SetBytes (decimalToIP x v) = x"
proof -
  define n :: nat where "n = (if v then 4 else 16)"
  have w: "(2::int) ^ width_of v = 256 ^ n"
    by (cases v) (simp_all add: width_of_def maxBits_of_def n_def)
  have "int (nat x) < 256 ^ n" using assms w by simp
  then have "nat x < 256 ^ n" by (metis of_nat_less_iff of_nat_numeral of_nat_power)
  then have l: "length (Bytes_nat (nat x)) \<le> n" by (rule length_Bytes_nat)
  have B: "Bytes x = Bytes_nat (nat x)" using assms(1) by (simp add: Bytes_def)
  have d: "decimalToIP x v = replicate (n - length (Bytes_nat (nat x))) 0 @ Bytes_nat (nat x)"
    using l by (simp add: decimalToIP_def B n_def Let_def)
  show "length (decimalToIP x v) = (if v then 4 else 16)" unfolding d using l by (simp add: n_def)
  show "SetBytes (decimalToIP x v) = x" unfolding d
    using assms(1) by (simp add: SetBytes_replicate_0_append SetBytes_Bytes_nat)
qed

lemma createCIDR_block:
  assumes "0 \<le> x" "x < 2 ^ width_of v" "m \<le> width_of v" "2 ^ m dvd x"
  shows "\<exists>c. createCIDRFromDecimalRange x (maxBits_of v - int m) v = Some c \<and>
             cidr_pair c = (x, width_of v - m) \<and> SetBytes (cEndIP c) = x + 2 ^ m - 1"
proof -
  define n :: nat where "n = (if v then 4 else 16)"
  define ip where "ip = decimalToIP x v"
  define ones where "ones = width_of v - m"
  define msk where "msk = mask_bytes ones n"
  have W: "width_of v = 8 * n" "maxBits_of v = int (8 * n)"
    by (cases v; simp add: width_of_def maxBits_of_def n_def)+
  have ip: "length ip = n" "SetBytes ip = x"
    using decimalToIP_value[OF assms(1,2)] by (simp_all add: ip_def n_def)
  have ones: "ones \<le> 8 * n" "8 * n - ones = m" using assms(3) W by (simp_all add: ones_def)
  have pl: "maxBits_of v - int m = int ones" using assms(3) W by (simp add: ones_def)
  have cm: "CIDRMask (maxBits_of v - int m) (if v then 32 else 128) = msk"
    unfolding pl using ones(1) by (cases v) (simp_all add: CIDRMask_def msk_def n_def)
  have lm: "length msk = n" by (simp add: msk_def length_mask_bytes)
  have ma: "map2 (\<lambda>a m. a AND m) ip msk = ip \<and>
            SetBytes (map2 (\<lambda>a m. a OR NOT m) ip msk) = x + 2 ^ m - 1"
    using mask_apply[of ones ip] ones assms(4) ip by (simp add: msk_def)
  have n: "n = 4 \<or> n = 16" by (simp add: n_def)
  have im: "IP_Mask ip msk = ip"
    using n ip(1) lm ma by (auto simp: IP_Mask_def Let_def)
  define c where "c = \<lparr>Network = \<lparr>IP = ip, Mask = msk\<rparr>, cStartIP = ip,
                         cEndIP = map2 (\<lambda>a m. a OR NOT m) ip msk\<rparr>"
  have "createCIDRFromDecimalRange x (maxBits_of v - int m) v = Some c"
    unfolding createCIDRFromDecimalRange_def Let_def cm ip_def[symmetric] im
    using ip(1) lm by (simp add: calculateNetworkEndIP_def c_def)
  moreover have "cidr_pair c = (x, width_of v - m)"
    using ip(2) simpleMaskLength_mask_bytes[OF ones(1)]
    by (simp add: cidr_pair_def c_def msk_def ones_def)
  moreover have "SetBytes (cEndIP c) = x + 2 ^ m - 1" using ma by (simp add: c_def)
  ultimately show ?thesis by blast
qed

lemma tz_loop_spec:
  assumes "cnt < 128" "\<forall>i < cnt. \<not> bit n i"
  shows "tz_loop n cnt \<le> 128 \<and> (\<forall>i < tz_loop n cnt. \<not> bit n i) \<and>
         (tz_loop n cnt < 128 \<longrightarrow> bit n (tz_loop n cnt))"
  using assms
proof (induction n cnt rule: tz_loop.induct)
  case (1 n cnt)
  show ?case
  proof (cases "bit n cnt")
    case True
    then have "tz_loop n cnt = cnt" by (subst tz_loop.simps) simp
    then show ?thesis using True 1(2,3) by simp
  next
    case False
    have z: "\<forall>i < cnt + 1. \<not> bit n i" using False 1(3) by (auto simp: less_Suc_eq)
    show ?thesis
    proof (cases "cnt + 1 \<ge> 128")
      case T: True
      then have "tz_loop n cnt = cnt + 1" using False by (subst tz_loop.simps) simp
      then show ?thesis using T 1(2) z by simp
    next
      case F: False
      then have e: "tz_loop n cnt = tz_loop n (cnt + 1)" using False by (subst tz_loop.simps) simp
      show ?thesis unfolding e using 1(1)[OF False F] F z by simp
    qed
  qed
qed

lemma low_zero_dvd:
  fixes n :: int
  assumes "\<forall>i < t. \<not> bit n i"
  shows "2 ^ t dvd n"
proof -
  have "take_bit t n = 0"
    by (rule bit_eqI) (use assms in \<open>auto simp: bit_take_bit_iff\<close>)
  then show ?thesis by (simp add: take_bit_eq_0_iff)
qed

lemma bit_not_dvd:
  fixes n :: int
  assumes "bit n t"
  shows "\<not> 2 ^ Suc t dvd n"
proof
  assume "2 ^ Suc t dvd n"
  then have "take_bit (Suc t) n = 0" by (simp add: take_bit_eq_0_iff)
  then have "\<not> bit (take_bit (Suc t) n) t" by simp
  then show False using assms by (simp add: bit_take_bit_iff)
qed

lemma trailing_zeros_spec:
  assumes "0 < first" "first < 2 ^ W" "W \<le> 128"
  shows "tz_loop first 0 < W \<and> 2 ^ tz_loop first 0 dvd first \<and>
         \<not> 2 ^ Suc (tz_loop first 0) dvd first"
proof -
  define t where "t = tz_loop first 0"
  have s: "t \<le> 128" "\<forall>i < t. \<not> bit first i" "t < 128 \<longrightarrow> bit first t"
    using tz_loop_spec[of 0 first] by (simp_all add: t_def)
  have d: "2 ^ t dvd first" using s(2) by (rule low_zero_dvd)
  have "t < 128"
  proof (rule ccontr)
    assume "\<not> t < 128"
    then have "t = 128" using s(1) by simp
    then have "(2::int) ^ 128 dvd first" using d by simp
    then have "(2::int) ^ 128 \<le> first" using assms(1) by (rule zdvd_imp_le)
    moreover have "(2::int) ^ W \<le> 2 ^ 128" using assms(3) by (intro power_increasing) simp_all
    ultimately show False using assms(2) by linarith
  qed
  then have b: "bit first t" using s(3) by simp
  have "t < W" using assms(1,2) b by (intro bit_bound_int[of first W t]) simp_all
  then show ?thesis using d bit_not_dvd[OF b] by (simp add: t_def)
qed

section \<open>The blocks of the normalizer\<close>

lemma width_of_le: "width_of v \<le> 128" "maxBits_of v = int (width_of v)"
  by (simp_all add: width_of_def maxBits_of_def)

lemma log2_bounds:
  assumes "0 < len"
  shows "0 \<le> bigIntLog2 len" "2 ^ nat (bigIntLog2 len) \<le> len" "len < 2 ^ Suc (nat (bigIntLog2 len))"
proof -
  have b: "0 < bitlen len"
    using assms bitlen_nonneg[of len] bitlen_eq_zero_iff[of len] by linarith
  have l: "bigIntLog2 len = bitlen len - 1" using assms by (simp add: bigIntLog2_def)
  show "0 \<le> bigIntLog2 len" using b l by simp
  have s: "Suc (nat (bigIntLog2 len)) = nat (bitlen len)" using b l by simp
  show "2 ^ nat (bigIntLog2 len) \<le> len" "len < 2 ^ Suc (nat (bigIntLog2 len))"
    unfolding s using bitlen_bounds[OF assms] unfolding l by simp_all
qed

lemma step_power_props:
  assumes "0 \<le> first" "0 < len" "first + len \<le> 2 ^ width_of v"
  shows "greedy_block (width_of v) (first + len) (first, step_power v first len)"
proof -
  define W where "W = width_of v"
  define lg where "lg = nat (bigIntLog2 len)"
  have lg: "bigIntLog2 len = int lg" "2 ^ lg \<le> len" "len < 2 ^ Suc lg"
    using log2_bounds[OF assms(2)] by (simp_all add: lg_def)
  have lenW: "len \<le> 2 ^ W" using assms by (simp add: W_def)
  have lgW: "lg \<le> W"
  proof -
    have "(2::int) ^ lg \<le> 2 ^ W" using lg(2) lenW by linarith
    then show ?thesis by (simp add: power_le_imp_le_exp)
  qed
  show ?thesis
  proof (cases "first = 0")
    case True
    have "step_power v first len = int lg"
      using True lgW by (simp add: step_power_def Let_def lg(1) width_of_le(2) W_def)
    then show ?thesis using True lg lgW assms by (simp add: greedy_block_def W_def)
  next
    case False
    then have f: "0 < first" "first < 2 ^ W" using assms by (simp_all add: W_def)
    define t where "t = tz_loop first 0"
    have t: "t < W" "2 ^ t dvd first" "\<not> 2 ^ Suc t dvd first"
      using trailing_zeros_spec[OF f] width_of_le(1)[of v] by (simp_all add: t_def W_def)
    have sp: "step_power v first len = (if t < lg then int t else int lg)"
      using False by (simp add: step_power_def Let_def lg(1) bigIntTrailingZeros_def t_def)
    show ?thesis
    proof (cases "t < lg")
      case True
      have "(2::int) ^ t \<le> 2 ^ lg" using True by (intro power_increasing) simp_all
      then have "first + 2 ^ t \<le> first + len" using lg(2) by linarith
      then show ?thesis using True sp t assms(1) by (simp add: greedy_block_def W_def)
    next
      case F: False
      then have "lg \<le> t" by simp
      then have "(2::int) ^ lg dvd 2 ^ t" by (rule le_imp_power_dvd)
      then have d: "2 ^ lg dvd first" using t(2) by (rule dvd_trans)
      show ?thesis using F sp d lg lgW assms(1) by (simp add: greedy_block_def W_def)
    qed
  qed
qed

lemma normalize_blocks_step:
  "0 < len \<Longrightarrow> normalize_blocks v first len =
     (first, step_power v first len) #
       normalize_blocks v (first + 2 ^ nat (step_power v first len)) (len - 2 ^ nat (step_power v first len))"
  by (subst normalize_blocks.simps) (simp add: Let_def)

lemma normalize_blocks_done: "len \<le> 0 \<Longrightarrow> normalize_blocks v first len = []"
  by (subst normalize_blocks.simps) simp

lemma normalize_loop_char:
  assumes "0 \<le> first" "first + len \<le> 2 ^ width_of v"
  shows "\<exists>cs. normalize_loop v first len acc = Some (acc @ cs) \<and>
              map cidr_pair cs =
                map (\<lambda>b. (fst b, width_of v - nat (snd b))) (normalize_blocks v first len)"
  using assms
proof (induction v first len arbitrary: acc rule: normalize_blocks.induct)
  case (1 v first len)
  show ?case
  proof (cases "0 < len")
    case False
    then have "normalize_loop v first len acc = Some acc" by (simp add: normalize_loop_done)
    then show ?thesis using False by (simp add: normalize_blocks_done)
  next
    case True
    define k where "k = step_power v first len"
    have g: "greedy_block (width_of v) (first + len) (first, k)"
      unfolding k_def using "1.prems"(1) True "1.prems"(2) by (rule step_power_props)
    then have k: "0 \<le> k" "nat k \<le> width_of v" "2 ^ nat k dvd first" "first + 2 ^ nat k \<le> first + len"
      by (simp_all add: greedy_block_def)
    have fl: "first < 2 ^ width_of v" using True "1.prems"(2) by linarith
    have pl: "maxBits_of v - k = maxBits_of v - int (nat k)" using k(1) by simp
    obtain c where c: "createCIDRFromDecimalRange first (maxBits_of v - k) v = Some c"
      "cidr_pair c = (first, width_of v - nat k)"
      using createCIDR_block[OF "1.prems"(1) fl k(2,3)] unfolding pl by blast
    have st: "normalize_loop v first len acc =
          normalize_loop v (first + 2 ^ nat k) (len - 2 ^ nat k) (acc @ [c])"
      using True c(1) by (simp add: normalize_loop_step k_def)
    have "\<exists>cs. normalize_loop v (first + 2 ^ nat k) (len - 2 ^ nat k) (acc @ [c]) = Some ((acc @ [c]) @ cs) \<and>
              map cidr_pair cs = map (\<lambda>b. (fst b, width_of v - nat (snd b)))
                (normalize_blocks v (first + 2 ^ nat k) (len - 2 ^ nat k))"
      using "1.prems" k(4) by (intro "1.IH"[OF True k_def]) simp_all
    then obtain cs where cs: "normalize_loop v (first + 2 ^ nat k) (len - 2 ^ nat k) (acc @ [c]) = Some ((acc @ [c]) @ cs)"
      "map cidr_pair cs = map (\<lambda>b. (fst b, width_of v - nat (snd b)))
                (normalize_blocks v (first + 2 ^ nat k) (len - 2 ^ nat k))"
      by blast
    have "normalize_loop v first len acc = Some (acc @ (c # cs))" using st cs(1) by simp
    moreover have "map cidr_pair (c # cs) =
        map (\<lambda>b. (fst b, width_of v - nat (snd b))) (normalize_blocks v first len)"
      unfolding normalize_blocks_step[OF True] using c(2) cs(2) by (simp add: k_def)
    ultimately show ?thesis by blast
  qed
qed

lemma multiples_apart:
  fixes a b d :: int
  assumes "d dvd a" "d dvd b" "a < b" "0 < d"
  shows "a + d \<le> b"
proof -
  have "d dvd b - a" using assms(1,2) by (rule dvd_diff[rotated])
  moreover have "0 < b - a" using assms(3) by simp
  ultimately have "d \<le> b - a" by (rule zdvd_imp_le)
  then show ?thesis by simp
qed

lemma no_left_block_init: "no_left_block first0 E first0"
  by (simp add: no_left_block_def)

lemma no_left_block_step:
  assumes inv: "no_left_block f0 E s" and g: "greedy_block W E (s, k)"
  shows "no_left_block f0 E (s + 2 ^ nat k)"
  unfolding no_left_block_def
proof (intro allI impI)
  fix m :: nat and P :: int
  define K where "K = nat k"
  assume a: "2 ^ m dvd P \<and> P < s + 2 ^ nat k \<and> s + 2 ^ nat k < P + 2 ^ m"
  then have d: "2 ^ m dvd P" and lo: "P < s + 2 ^ K" and hi: "s + 2 ^ K < P + 2 ^ m"
    by (simp_all add: K_def)
  have gk: "2 ^ K dvd s" "2 ^ Suc K dvd s \<longrightarrow> E - s < 2 ^ Suc K"
    using g by (simp_all add: greedy_block_def K_def)
  have mk: "K < m"
  proof (rule ccontr)
    assume "\<not> K < m"
    then have "m \<le> K" by simp
    then have "(2::int) ^ m dvd 2 ^ K" by (rule le_imp_power_dvd)
    then have "2 ^ m dvd s + 2 ^ K" using gk(1) by (meson dvd_add dvd_trans)
    then have "P + 2 ^ m \<le> s + 2 ^ K" using d lo by (intro multiples_apart) simp_all
    then show False using hi by simp
  qed
  then have "(2::int) ^ K dvd 2 ^ m" by (intro le_imp_power_dvd) simp
  then have dP: "2 ^ K dvd P" using d by (rule dvd_trans)
  have "2 ^ K dvd s + 2 ^ K" using gk(1) by simp
  then have "P + 2 ^ K \<le> s + 2 ^ K" using dP lo by (intro multiples_apart) simp_all
  then have Ps: "P \<le> s" by simp
  have p2: "(2::int) ^ K < 2 ^ K + 2 ^ K" by simp
  show "P < f0 \<or> E < P + 2 ^ m"
  proof (cases "P = s")
    case True
    have "Suc K \<le> m" using mk by simp
    then have le: "(2::int) ^ Suc K dvd 2 ^ m" by (rule le_imp_power_dvd)
    then have "2 ^ Suc K dvd s" using d True by (meson dvd_trans)
    then have "E - s < 2 ^ Suc K" using gk(2) by simp
    moreover have "(2::int) ^ Suc K \<le> 2 ^ m" using le by (intro zdvd_imp_le) simp_all
    ultimately show ?thesis using True by linarith
  next
    case False
    then have "P < s" using Ps by simp
    moreover have "s < P + 2 ^ m" using hi p2 by (smt (verit) zero_less_power)
    ultimately show ?thesis using inv d unfolding no_left_block_def by blast
  qed
qed

lemma block_max:
  assumes inv: "no_left_block f0 E s" and g: "greedy_block W E (s, k)"
    and d: "2 ^ m dvd P" and c: "P \<le> s" "s < P + 2 ^ m" and i: "f0 \<le> P" "P + 2 ^ m \<le> E"
  shows "P = s \<and> m \<le> nat k"
proof -
  have P: "P = s"
  proof (rule ccontr)
    assume "P \<noteq> s"
    then have "P < s" using c(1) by simp
    then have "P < f0 \<or> E < P + 2 ^ m" using inv d c(2) unfolding no_left_block_def by blast
    then show False using i by linarith
  qed
  have "m \<le> nat k"
  proof (rule ccontr)
    assume "\<not> m \<le> nat k"
    then have "Suc (nat k) \<le> m" by simp
    then have le: "(2::int) ^ Suc (nat k) dvd 2 ^ m" by (rule le_imp_power_dvd)
    then have "2 ^ Suc (nat k) dvd s" using d P by (meson dvd_trans)
    then have "E - s < 2 ^ Suc (nat k)" using g by (simp add: greedy_block_def)
    moreover have "(2::int) ^ Suc (nat k) \<le> 2 ^ m" using le by (intro zdvd_imp_le) simp_all
    ultimately show False using i(2) P by linarith
  qed
  with P show ?thesis by simp
qed

lemma blocks_props:
  assumes "0 \<le> first" "first + len = E" "E \<le> 2 ^ width_of v" "first0 \<le> first"
    "no_left_block first0 E first"
  shows "(\<forall>b \<in> set (normalize_blocks v first len).
            greedy_block (width_of v) E b \<and> first \<le> fst b \<and> no_left_block first0 E (fst b)) \<and>
         sorted_wrt (\<lambda>a b. fst a + 2 ^ nat (snd a) \<le> fst b) (normalize_blocks v first len) \<and>
         (\<Union>b \<in> set (normalize_blocks v first len). {fst b .. fst b + 2 ^ nat (snd b) - 1}) =
           {first .. E - 1}"
  using assms
proof (induction v first len rule: normalize_blocks.induct)
  case (1 v first len)
  show ?case
  proof (cases "0 < len")
    case False
    then show ?thesis using "1.prems"(2) by (simp add: normalize_blocks_done)
  next
    case True
    define k where "k = step_power v first len"
    define s' where "s' = first + 2 ^ nat k"
    define rest where "rest = normalize_blocks v s' (len - 2 ^ nat k)"
    have g: "greedy_block (width_of v) E (first, k)"
      using step_power_props[OF "1.prems"(1) True] "1.prems"(2,3) by (simp add: k_def)
    then have sE: "s' \<le> E" by (simp add: greedy_block_def s'_def)
    have p: "(0::int) < 2 ^ nat k" by simp
    have inv': "no_left_block first0 E s'"
      unfolding s'_def using "1.prems"(5) g by (rule no_left_block_step)
    have IH: "(\<forall>b \<in> set rest.
            greedy_block (width_of v) E b \<and> s' \<le> fst b \<and> no_left_block first0 E (fst b)) \<and>
         sorted_wrt (\<lambda>a b. fst a + 2 ^ nat (snd a) \<le> fst b) rest \<and>
         (\<Union>b \<in> set rest. {fst b .. fst b + 2 ^ nat (snd b) - 1}) = {s' .. E - 1}"
      unfolding rest_def s'_def
    proof (rule "1.IH"[OF True k_def])
      show "0 \<le> first + 2 ^ nat k" using "1.prems"(1) p by linarith
      show "first + 2 ^ nat k + (len - 2 ^ nat k) = E" using "1.prems"(2) by simp
      show "E \<le> 2 ^ width_of v" by (rule "1.prems"(3))
      show "first0 \<le> first + 2 ^ nat k" using "1.prems"(4) p by linarith
      show "no_left_block first0 E (first + 2 ^ nat k)" using inv' by (simp add: s'_def)
    qed
    have e: "normalize_blocks v first len = (first, k) # rest"
      unfolding rest_def s'_def k_def by (rule normalize_blocks_step[OF True])
    have fs: "first < s'" using p by (simp add: s'_def)
    have 1: "\<forall>b \<in> set ((first, k) # rest).
            greedy_block (width_of v) E b \<and> first \<le> fst b \<and> no_left_block first0 E (fst b)"
      using IH g "1.prems"(5) fs by auto
    have 2: "sorted_wrt (\<lambda>a b. fst a + 2 ^ nat (snd a) \<le> fst b) ((first, k) # rest)"
      using IH by (simp add: s'_def)
    have "{first .. s' - 1} \<union> {s' .. E - 1} = {first .. E - 1}"
      using sE fs by auto
    then have "{first .. first + 2 ^ nat k - 1} \<union> {s' .. E - 1} = {first .. E - 1}"
      by (simp add: s'_def)
    then have 3: "(\<Union>b \<in> set ((first, k) # rest). {fst b .. fst b + 2 ^ nat (snd b) - 1}) =
           {first .. E - 1}"
      using IH by simp
    show ?thesis unfolding e using 1 2 3 by blast
  qed
qed

lemma greedy_minimal:
  assumes P: "\<forall>b \<in> set bl. greedy_block W E b \<and> first \<le> fst b \<and> no_left_block first E (fst b)"
    and S: "sorted_wrt (\<lambda>a b. fst a + 2 ^ nat (snd a) \<le> fst b) bl"
    and C: "is_cover W first (E - 1) C"
  shows "length bl \<le> card C"
proof -
  define A where "A = set (map fst bl)"
  define g where "g s = (SOME c. c \<in> C \<and> s \<in> cidr_block W c)" for s
  have fin: "finite C" and val: "\<forall>c \<in> C. valid_cidr W c"
    and un: "(\<Union>c \<in> C. cidr_block W c) = {first .. E - 1}"
    using C by (simp_all add: is_cover_def)
  have "sorted_wrt (\<lambda>a b. fst a < fst b) bl"
  proof (rule sorted_wrt_mono_rel[OF _ S])
    fix a b :: "int \<times> int"
    have "(0::int) < 2 ^ nat (snd a)" by simp
    moreover assume "fst a + 2 ^ nat (snd a) \<le> fst b"
    ultimately show "fst a < fst b" by linarith
  qed
  then have "sorted_wrt (<) (map fst bl)" by (simp add: sorted_wrt_map)
  then have "distinct (map fst bl)" by (simp add: strict_sorted_iff)
  then have "card (set (map fst bl)) = length (map fst bl)" by (rule distinct_card)
  then have cardA: "card A = length bl" unfolding A_def by simp
  have start: "fst c = s" if s: "s \<in> A" and c: "c \<in> C" "s \<in> cidr_block W c" for s c
  proof -
    obtain k where b: "(s, k) \<in> set bl" using s by (auto simp: A_def)
    have gb: "greedy_block W E (s, k)" and inv: "no_left_block first E s"
      using P b by auto
    obtain Pc L where cp: "c = (Pc, L)" by (cases c)
    have v: "L \<le> W" "2 ^ (W - L) dvd Pc" using val c(1) by (auto simp: valid_cidr_def cp)
    have sub: "cidr_block W c \<subseteq> {first .. E - 1}" using un c(1) by blast
    have p1: "(1::int) \<le> 2 ^ (W - L)" by simp
    have "Pc \<in> cidr_block W c" "Pc + 2 ^ (W - L) - 1 \<in> cidr_block W c"
      using p1 unfolding cidr_block_def cp by simp_all
    then have "Pc \<in> {first .. E - 1}" "Pc + 2 ^ (W - L) - 1 \<in> {first .. E - 1}"
      using sub by blast+
    then have i: "first \<le> Pc" "Pc + 2 ^ (W - L) \<le> E" by simp_all
    have cs: "Pc \<le> s" "s < Pc + 2 ^ (W - L)" using c(2) by (simp_all add: cidr_block_def cp)
    have "Pc = s \<and> W - L \<le> nat k" using inv gb v(2) cs i by (rule block_max)
    then show ?thesis by (simp add: cp)
  qed
  have ex: "g s \<in> C \<and> s \<in> cidr_block W (g s)" if s: "s \<in> A" for s
  proof -
    obtain k where b: "(s, k) \<in> set bl" using s by (auto simp: A_def)
    have "greedy_block W E (s, k)" "first \<le> s" using P b by auto
    then have "s + 2 ^ nat k \<le> E" "first \<le> s" by (simp_all add: greedy_block_def)
    moreover have "(0::int) < 2 ^ nat k" by simp
    ultimately have "first \<le> s" "s \<le> E - 1" by linarith+
    then have "s \<in> {first .. E - 1}" by simp
    then have "\<exists>c. c \<in> C \<and> s \<in> cidr_block W c" using un by blast
    then show ?thesis unfolding g_def by (rule someI_ex)
  qed
  have "inj_on g A"
  proof (rule inj_onI)
    fix s t assume st: "s \<in> A" "t \<in> A" "g s = g t"
    have a: "fst (g s) = s" using st(1) ex[OF st(1)] by (intro start) simp_all
    have b: "fst (g t) = t" using st(2) ex[OF st(2)] by (intro start) simp_all
    have "s = fst (g s)" by (rule a[symmetric])
    also have "\<dots> = fst (g t)" by (rule arg_cong[OF st(3)])
    also have "\<dots> = t" by (rule b)
    finally show "s = t" .
  qed
  moreover have "g ` A \<subseteq> C" using ex by blast
  ultimately have "card A \<le> card C" using fin by (rule card_inj_on_le)
  then show ?thesis using cardA by simp
qed

section \<open>The normalizer: exactness and minimality\<close>

lemma block_pair_block:
  assumes "greedy_block W E b"
  shows "cidr_block W (block_pair W b) = {fst b .. fst b + 2 ^ nat (snd b) - 1}"
proof -
  have "nat (snd b) \<le> W" using assms by (cases b) (simp add: greedy_block_def)
  then have "W - (W - nat (snd b)) = nat (snd b)" by simp
  then show ?thesis by (simp add: cidr_block_def block_pair_def)
qed

lemma block_pair_valid:
  assumes "greedy_block W E b" "E \<le> 2 ^ W"
  shows "valid_cidr W (block_pair W b)"
proof -
  obtain s k where b: "b = (s, k)" by (cases b)
  have g: "nat k \<le> W" "0 \<le> s" "2 ^ nat k dvd s" "s + 2 ^ nat k \<le> E"
    using assms(1) by (simp_all add: greedy_block_def b)
  have e: "W - (W - nat k) = nat k" using g(1) by simp
  have "(0::int) < 2 ^ nat k" by simp
  then have "s < 2 ^ W" using g(4) assms(2) by linarith
  then show ?thesis using g e by (simp add: valid_cidr_def block_pair_def b)
qed

lemma normalizer_single:
  assumes "0 \<le> First r" "First r \<le> Last r" "Last r < 2 ^ width_of v"
  shows "\<exists>out. rustStyleNormalized [r] v = Some out \<and>
           map cidr_pair out =
             map (block_pair (width_of v)) (normalize_blocks v (First r) (Last r - First r + 1))"
proof -
  have b: "First r + (Last r - First r + 1) \<le> 2 ^ width_of v" using assms(3) by simp
  obtain cs where cs: "normalize_loop v (First r) (Last r - First r + 1) [] = Some ([] @ cs)"
    "map cidr_pair cs = map (\<lambda>b. (fst b, width_of v - nat (snd b)))
        (normalize_blocks v (First r) (Last r - First r + 1))"
    using normalize_loop_char[OF assms(1) b, of "[]"] by blast
  have ne: "Last r - First r + 1 \<noteq> 0" using assms(2) by simp
  have "rustStyleNormalized [r] v = Some cs"
    using ne cs(1) by (simp add: rustStyleNormalized_def Let_def)
  moreover have "map cidr_pair cs =
      map (block_pair (width_of v)) (normalize_blocks v (First r) (Last r - First r + 1))"
    using cs(2) by (simp add: block_pair_def[abs_def])
  ultimately show ?thesis by blast
qed

lemma S3_normalized: "rustStyleNormalized [S3_range] True = Some S3_blocks"
  by (simp add: rustStyleNormalized_def S3_range_def S3_blocks_def S3_loop)

text \<open>
  Claim C2. For a family of width \<open>W\<close> (32 or 128) and an interval with
  \<open>0 \<le> first \<le> last < 2 ^ W\<close>, \<open>rustStyleNormalized\<close> on that single interval returns a
  list of CIDRs, each valid (prefix length at most \<open>W\<close>, zero host bits), whose intervals
  are pairwise disjoint and whose union is exactly \<open>first .. last\<close>; the list is a CIDR
  cover of the interval without repetition, and no CIDR cover of the interval has fewer
  elements.
\<close>

theorem C2_normalizer_exact_and_minimal:
  assumes "0 \<le> First r" "First r \<le> Last r" "Last r < 2 ^ width_of isIPv4"
  shows "\<exists>out. rustStyleNormalized [r] isIPv4 = Some out \<and>
           (\<forall>c \<in> set out. valid_cidr (width_of isIPv4) (cidr_pair c)) \<and>
           (\<forall>i < length out. \<forall>j < length out. i \<noteq> j \<longrightarrow>
              cidr_interval (width_of isIPv4) (out ! i) \<inter>
              cidr_interval (width_of isIPv4) (out ! j) = {}) \<and>
           (\<Union>c \<in> set out. cidr_interval (width_of isIPv4) c) = {First r .. Last r} \<and>
           is_cover (width_of isIPv4) (First r) (Last r) (cidr_pair ` set out) \<and>
           card (cidr_pair ` set out) = length out \<and>
           (\<forall>C. is_cover (width_of isIPv4) (First r) (Last r) C \<longrightarrow> length out \<le> card C)"
proof -
  define W where "W = width_of isIPv4"
  define E where "E = Last r + 1"
  define bl where "bl = normalize_blocks isIPv4 (First r) (Last r - First r + 1)"
  obtain out where out: "rustStyleNormalized [r] isIPv4 = Some out"
    "map cidr_pair out = map (block_pair W) bl"
    using normalizer_single[OF assms] unfolding W_def bl_def by blast
  have EW: "E \<le> 2 ^ W" using assms(3) by (simp add: E_def W_def)
  have bp: "(\<forall>b \<in> set bl. greedy_block W E b \<and> First r \<le> fst b \<and> no_left_block (First r) E (fst b)) \<and>
         sorted_wrt (\<lambda>a b. fst a + 2 ^ nat (snd a) \<le> fst b) bl \<and>
         (\<Union>b \<in> set bl. {fst b .. fst b + 2 ^ nat (snd b) - 1}) = {First r .. E - 1}"
    unfolding bl_def W_def
    by (rule blocks_props) (use assms EW in \<open>simp_all add: E_def W_def no_left_block_init\<close>)
  then have gb: "\<And>b. b \<in> set bl \<Longrightarrow> greedy_block W E b"
    and so: "sorted_wrt (\<lambda>a b. fst a + 2 ^ nat (snd a) \<le> fst b) bl"
    and un: "(\<Union>b \<in> set bl. {fst b .. fst b + 2 ^ nat (snd b) - 1}) = {First r .. Last r}"
    by (simp_all add: E_def)
  have len: "length out = length bl" using out(2) by (metis length_map)
  have nth: "cidr_pair (out ! i) = block_pair W (bl ! i)" if "i < length out" for i
    using that out(2) len by (metis nth_map)
  have iv: "cidr_interval W (out ! i) = {fst (bl ! i) .. fst (bl ! i) + 2 ^ nat (snd (bl ! i)) - 1}"
    if "i < length out" for i
    using that len gb[of "bl ! i"] by (simp add: cidr_interval_def nth block_pair_block)
  have set: "cidr_pair ` set out = block_pair W ` set bl"
    using out(2) by (metis set_map)
  have 1: "\<forall>c \<in> set out. valid_cidr W (cidr_pair c)"
  proof
    fix c assume "c \<in> set out"
    then have "cidr_pair c \<in> block_pair W ` set bl" using set by blast
    then obtain b where b: "b \<in> set bl" "cidr_pair c = block_pair W b" by blast
    have "valid_cidr W (block_pair W b)" using gb[OF b(1)] EW by (rule block_pair_valid)
    then show "valid_cidr W (cidr_pair c)" using b(2) by simp
  qed
  have lt: "cidr_interval W (out ! i) \<inter> cidr_interval W (out ! j) = {}"
    if "i < j" "j < length out" for i j
  proof -
    have "fst (bl ! i) + 2 ^ nat (snd (bl ! i)) \<le> fst (bl ! j)"
      using so that len by (simp add: sorted_wrt_iff_nth_less)
    then show ?thesis using that by (auto simp: iv)
  qed
  have 2: "\<forall>i < length out. \<forall>j < length out. i \<noteq> j \<longrightarrow>
              cidr_interval W (out ! i) \<inter> cidr_interval W (out ! j) = {}"
  proof (intro allI impI)
    fix i j assume ij: "i < length out" "j < length out" "i \<noteq> j"
    then consider "i < j" | "j < i" by linarith
    then show "cidr_interval W (out ! i) \<inter> cidr_interval W (out ! j) = {}"
    proof cases
      case 1
      then show ?thesis using ij by (intro lt)
    next
      case 2
      then have "cidr_interval W (out ! j) \<inter> cidr_interval W (out ! i) = {}" using ij by (intro lt)
      then show ?thesis by blast
    qed
  qed
  have "(\<Union>c \<in> set out. cidr_interval W c) = (\<Union>p \<in> cidr_pair ` set out. cidr_block W p)"
    by (simp add: cidr_interval_def)
  also have "\<dots> = (\<Union>b \<in> set bl. cidr_block W (block_pair W b))" unfolding set by simp
  also have "\<dots> = (\<Union>b \<in> set bl. {fst b .. fst b + 2 ^ nat (snd b) - 1})"
  proof (rule SUP_cong[OF refl])
    fix b assume "b \<in> set bl"
    then have "greedy_block W E b" by (rule gb)
    then show "cidr_block W (block_pair W b) = {fst b .. fst b + 2 ^ nat (snd b) - 1}"
      by (rule block_pair_block)
  qed
  finally have 3: "(\<Union>c \<in> set out. cidr_interval W c) = {First r .. Last r}" using un by simp
  have 4: "is_cover W (First r) (Last r) (cidr_pair ` set out)"
    unfolding is_cover_def using 1 3 by (simp add: cidr_interval_def)
  have "sorted_wrt (\<lambda>a b. fst a < fst b) bl"
  proof (rule sorted_wrt_mono_rel[OF _ so])
    fix a b :: "int \<times> int"
    have "(0::int) < 2 ^ nat (snd a)" by simp
    moreover assume "fst a + 2 ^ nat (snd a) \<le> fst b"
    ultimately show "fst a < fst b" by linarith
  qed
  then have "sorted_wrt (<) (map fst (map (block_pair W) bl))"
    by (simp add: sorted_wrt_map block_pair_def)
  then have "distinct (map fst (map cidr_pair out))" unfolding out(2) by (simp add: strict_sorted_iff)
  then have "distinct (map cidr_pair out)" using distinct_map[of fst "map cidr_pair out"] by blast
  then have "card (set (map cidr_pair out)) = length (map cidr_pair out)" by (rule distinct_card)
  then have 5: "card (cidr_pair ` set out) = length out" by simp
  have 6: "\<forall>C. is_cover W (First r) (Last r) C \<longrightarrow> length out \<le> card C"
  proof (intro allI impI)
    fix C assume "is_cover W (First r) (Last r) C"
    then have C: "is_cover W (First r) (E - 1) C" by (simp add: E_def)
    have "length bl \<le> card C" using _ so C
      by (rule greedy_minimal) (use bp in blast)
    then show "length out \<le> card C" using len by simp
  qed
  show ?thesis using out(1) 1 2 3 4 5 6 unfolding W_def by blast
qed

theorem C2_normalizer_exact_and_minimal_witness:
  "0 \<le> First S3_range \<and> First S3_range \<le> Last S3_range \<and> Last S3_range < 2 ^ width_of True \<and>
   rustStyleNormalized [S3_range] True = Some S3_blocks \<and>
   (\<Union>c \<in> set S3_blocks. cidr_interval (width_of True) c) = {First S3_range .. Last S3_range} \<and>
   is_cover (width_of True) (First S3_range) (Last S3_range) (cidr_pair ` set S3_blocks) \<and>
   card (cidr_pair ` set S3_blocks) = length S3_blocks \<and>
   \<not> (\<exists>C. is_cover (width_of True) (First S3_range) (Last S3_range) C \<and> card C < length S3_blocks)"
proof -
  have h: "0 \<le> First S3_range" "First S3_range \<le> Last S3_range" "Last S3_range < 2 ^ width_of True"
    by (simp_all add: S3_range_def width_of_def maxBits_of_def)
  have "\<exists>out. rustStyleNormalized [S3_range] True = Some out \<and>
           (\<forall>c \<in> set out. valid_cidr (width_of True) (cidr_pair c)) \<and>
           (\<forall>i < length out. \<forall>j < length out. i \<noteq> j \<longrightarrow>
              cidr_interval (width_of True) (out ! i) \<inter>
              cidr_interval (width_of True) (out ! j) = {}) \<and>
           (\<Union>c \<in> set out. cidr_interval (width_of True) c) = {First S3_range .. Last S3_range} \<and>
           is_cover (width_of True) (First S3_range) (Last S3_range) (cidr_pair ` set out) \<and>
           card (cidr_pair ` set out) = length out \<and>
           (\<forall>C. is_cover (width_of True) (First S3_range) (Last S3_range) C \<longrightarrow> length out \<le> card C)"
    by (rule C2_normalizer_exact_and_minimal[OF h])
  then obtain out where o: "rustStyleNormalized [S3_range] True = Some out \<and>
           (\<forall>c \<in> set out. valid_cidr (width_of True) (cidr_pair c)) \<and>
           (\<forall>i < length out. \<forall>j < length out. i \<noteq> j \<longrightarrow>
              cidr_interval (width_of True) (out ! i) \<inter>
              cidr_interval (width_of True) (out ! j) = {}) \<and>
           (\<Union>c \<in> set out. cidr_interval (width_of True) c) = {First S3_range .. Last S3_range} \<and>
           is_cover (width_of True) (First S3_range) (Last S3_range) (cidr_pair ` set out) \<and>
           card (cidr_pair ` set out) = length out \<and>
           (\<forall>C. is_cover (width_of True) (First S3_range) (Last S3_range) C \<longrightarrow> length out \<le> card C)" ..
  note out = o[THEN conjunct1] o[THEN conjunct2, THEN conjunct2, THEN conjunct2, THEN conjunct1]
    o[THEN conjunct2, THEN conjunct2, THEN conjunct2, THEN conjunct2, THEN conjunct1]
    o[THEN conjunct2, THEN conjunct2, THEN conjunct2, THEN conjunct2, THEN conjunct2, THEN conjunct1]
    o[THEN conjunct2, THEN conjunct2, THEN conjunct2, THEN conjunct2, THEN conjunct2, THEN conjunct2]
  have e: "out = S3_blocks" using out(1) S3_normalized by simp
  have m: "\<not> (\<exists>C. is_cover (width_of True) (First S3_range) (Last S3_range) C \<and> card C < length S3_blocks)"
  proof
    assume "\<exists>C. is_cover (width_of True) (First S3_range) (Last S3_range) C \<and> card C < length S3_blocks"
    then obtain C where C: "is_cover (width_of True) (First S3_range) (Last S3_range) C"
      "card C < length S3_blocks" by blast
    have "length S3_blocks \<le> card C" using out(5) C(1) unfolding e by blast
    then show False using C(2) by simp
  qed
  show ?thesis
    by (intro conjI h S3_normalized m out(2)[unfolded e] out(3)[unfolded e] out(4)[unfolded e])
qed

section \<open>The emitted CIDR lists\<close>

lemma normalize_ranges_char:
  assumes "\<forall>d \<in> set ds. 0 \<le> First d \<and> 0 \<le> Last d \<and> Last d < 2 ^ width_of v"
  shows "\<exists>cs. normalize_ranges v ds acc = Some (acc @ cs) \<and>
              map cidr_pair cs = concat (map (\<lambda>d. map (block_pair (width_of v)) (blocks_of v d)) ds)"
  using assms
proof (induction ds arbitrary: acc)
  case Nil
  then show ?case by simp
next
  case (Cons d ds)
  have d: "0 \<le> First d" "0 \<le> Last d" "Last d < 2 ^ width_of v" using Cons.prems by simp_all
  have b: "First d + (Last d - First d + 1) \<le> 2 ^ width_of v" using d(3) by simp
  obtain cs where cs: "normalize_loop v (First d) (Last d - First d + 1) acc = Some (acc @ cs)"
    "map cidr_pair cs = map (\<lambda>b. (fst b, width_of v - nat (snd b))) (blocks_of v d)"
    using normalize_loop_char[OF d(1) b, of acc] unfolding blocks_of_def by blast
  have cs2: "map cidr_pair cs = map (block_pair (width_of v)) (blocks_of v d)"
    using cs(2) by (simp add: block_pair_def[abs_def])
  obtain cs' where cs': "normalize_ranges v ds (acc @ cs) = Some ((acc @ cs) @ cs')"
    "map cidr_pair cs' = concat (map (\<lambda>d. map (block_pair (width_of v)) (blocks_of v d)) ds)"
    using Cons.IH[of "acc @ cs"] Cons.prems by auto
  have ns: "(First d = 0 \<and> Last d - First d + 1 = 0) = False" using d(2) by auto
  have "normalize_ranges v (d # ds) acc = Some (acc @ (cs @ cs'))"
    unfolding normalize_ranges.simps Let_def ns using cs(1) cs'(1) by simp
  moreover have "map cidr_pair (cs @ cs') =
      concat (map (\<lambda>d. map (block_pair (width_of v)) (blocks_of v d)) (d # ds))"
    using cs2 cs'(2) by simp
  ultimately show ?case by blast
qed

lemma blocks_of_props:
  assumes "0 \<le> First d" "Last d < 2 ^ width_of v"
  shows "\<forall>b \<in> set (blocks_of v d). greedy_block (width_of v) (Last d + 1) b \<and> First d \<le> fst b"
    and "sorted_wrt (\<lambda>a b. fst a + 2 ^ nat (snd a) \<le> fst b) (blocks_of v d)"
proof -
  have "(\<forall>b \<in> set (blocks_of v d).
            greedy_block (width_of v) (Last d + 1) b \<and> First d \<le> fst b \<and>
            no_left_block (First d) (Last d + 1) (fst b)) \<and>
         sorted_wrt (\<lambda>a b. fst a + 2 ^ nat (snd a) \<le> fst b) (blocks_of v d) \<and>
         (\<Union>b \<in> set (blocks_of v d). {fst b .. fst b + 2 ^ nat (snd b) - 1}) =
           {First d .. Last d + 1 - 1}"
    unfolding blocks_of_def
    by (rule blocks_props) (use assms in \<open>simp_all add: no_left_block_init\<close>)
  then show "\<forall>b \<in> set (blocks_of v d). greedy_block (width_of v) (Last d + 1) b \<and> First d \<le> fst b"
    and "sorted_wrt (\<lambda>a b. fst a + 2 ^ nat (snd a) \<le> fst b) (blocks_of v d)"
    by blast+
qed

lemma all_blocks_chain:
  assumes "\<forall>d \<in> set ds. 0 \<le> First d \<and> 0 \<le> Last d \<and> Last d < 2 ^ width_of v"
    and "sorted_wrt (\<lambda>a b. Last a + 1 < First b) ds"
  shows "sorted_wrt (\<lambda>a b. fst a + 2 ^ nat (snd a) \<le> fst b) (concat (map (blocks_of v) ds))"
  using assms
proof (induction ds)
  case Nil
  then show ?case by simp
next
  case (Cons d ds)
  have d: "0 \<le> First d" "Last d < 2 ^ width_of v" using Cons.prems(1) by simp_all
  have 1: "sorted_wrt (\<lambda>a b. fst a + 2 ^ nat (snd a) \<le> fst b) (blocks_of v d)"
    using d by (rule blocks_of_props(2))
  have 2: "sorted_wrt (\<lambda>a b. fst a + 2 ^ nat (snd a) \<le> fst b) (concat (map (blocks_of v) ds))"
    using Cons.prems by (intro Cons.IH) simp_all
  have 3: "fst x + 2 ^ nat (snd x) \<le> fst y"
    if x: "x \<in> set (blocks_of v d)" and y: "y \<in> set (concat (map (blocks_of v) ds))" for x y
  proof -
    obtain d' where d': "d' \<in> set ds" "y \<in> set (blocks_of v d')" using y by auto
    have b': "0 \<le> First d'" "Last d' < 2 ^ width_of v" using Cons.prems(1) d'(1) by simp_all
    have "First d' \<le> fst y" using blocks_of_props(1)[OF b'] d'(2) by blast
    moreover have "Last d + 1 < First d'" using Cons.prems(2) d'(1) by simp
    moreover have "greedy_block (width_of v) (Last d + 1) x" using blocks_of_props(1)[OF d] x by blast
    then have "fst x + 2 ^ nat (snd x) \<le> Last d + 1" by (cases x) (simp add: greedy_block_def)
    ultimately show ?thesis by linarith
  qed
  show ?case using 1 2 3 by (simp add: sorted_wrt_append)
qed

lemma all_blocks_greedy:
  assumes "\<forall>d \<in> set ds. 0 \<le> First d \<and> 0 \<le> Last d \<and> Last d < 2 ^ width_of v"
    and "b \<in> set (concat (map (blocks_of v) ds))"
  shows "\<exists>E. E \<le> 2 ^ width_of v \<and> greedy_block (width_of v) E b"
proof -
  obtain d where d: "d \<in> set ds" "b \<in> set (blocks_of v d)" using assms(2) by auto
  have b: "0 \<le> First d" "Last d < 2 ^ width_of v" using assms(1) d(1) by simp_all
  have "greedy_block (width_of v) (Last d + 1) b" using blocks_of_props(1)[OF b] d(2) by blast
  moreover have "Last d + 1 \<le> 2 ^ width_of v" using b(2) by simp
  ultimately show ?thesis by blast
qed

lemma chain_ascending_disjoint:
  assumes m: "map cidr_pair cs = map (block_pair W) bl"
    and so: "sorted_wrt (\<lambda>a b. fst a + 2 ^ nat (snd a) \<le> fst b) bl"
    and gb: "\<And>b. b \<in> set bl \<Longrightarrow> \<exists>E. E \<le> 2 ^ W \<and> greedy_block W E b"
  shows "ascending_disjoint W cs \<and> (\<forall>c \<in> set cs. valid_cidr W (cidr_pair c))"
proof -
  have len: "length cs = length bl" using m by (metis length_map)
  have nth: "cidr_pair (cs ! i) = block_pair W (bl ! i)" if "i < length cs" for i
    using that m len by (metis nth_map)
  have iv: "cidr_interval W (cs ! i) = {fst (bl ! i) .. fst (bl ! i) + 2 ^ nat (snd (bl ! i)) - 1}"
    if "i < length cs" for i
  proof -
    have "bl ! i \<in> set bl" using that len by simp
    then obtain E where "greedy_block W E (bl ! i)" using gb by blast
    then show ?thesis using that by (simp add: cidr_interval_def nth block_pair_block)
  qed
  have lt: "cidr_interval W (cs ! i) \<inter> cidr_interval W (cs ! j) = {} \<and>
            fst (cidr_pair (cs ! i)) < fst (cidr_pair (cs ! j))"
    if "i < j" "j < length cs" for i j
  proof -
    have le: "fst (bl ! i) + 2 ^ nat (snd (bl ! i)) \<le> fst (bl ! j)"
      using so that len by (simp add: sorted_wrt_iff_nth_less)
    have p: "(0::int) < 2 ^ nat (snd (bl ! i))" by simp
    have "fst (bl ! i) < fst (bl ! j)" using le p by linarith
    then have "fst (cidr_pair (cs ! i)) < fst (cidr_pair (cs ! j))"
      using that by (simp add: nth block_pair_def)
    moreover have "cidr_interval W (cs ! i) \<inter> cidr_interval W (cs ! j) = {}"
      using le that by (auto simp: iv)
    ultimately show ?thesis by simp
  qed
  have 1: "ascending_disjoint W cs"
    unfolding ascending_disjoint_def
  proof (intro allI impI conjI)
    fix i j assume ij: "i < length cs" "j < length cs" "i \<noteq> j"
    then consider "i < j" | "j < i" by linarith
    then show "cidr_interval W (cs ! i) \<inter> cidr_interval W (cs ! j) = {}"
    proof cases
      case 1
      then show ?thesis using ij lt by blast
    next
      case 2
      then have "cidr_interval W (cs ! j) \<inter> cidr_interval W (cs ! i) = {}" using ij lt by blast
      then show ?thesis by blast
    qed
  next
    fix i j assume "i < length cs" "j < length cs" "i < j"
    then show "fst (cidr_pair (cs ! i)) < fst (cidr_pair (cs ! j))" using lt by blast
  qed
  have 2: "\<forall>c \<in> set cs. valid_cidr W (cidr_pair c)"
  proof
    fix c assume "c \<in> set cs"
    then have "cidr_pair c \<in> set (map cidr_pair cs)" by simp
    then obtain b where b: "b \<in> set bl" "cidr_pair c = block_pair W b" unfolding m by auto
    obtain E where E: "E \<le> 2 ^ W" "greedy_block W E b" using gb[OF b(1)] by blast
    have "valid_cidr W (block_pair W b)" using E(2,1) by (rule block_pair_valid)
    then show "valid_cidr W (cidr_pair c)" using b(2) by simp
  qed
  show ?thesis using 1 2 by simp
qed

lemma ipToDecimal_bounds:
  assumes "ipToDecimal ip = Some l"
  shows "0 \<le> l" and "l < 2 ^ 128" and "To4 ip \<noteq> None \<Longrightarrow> l < 2 ^ 32"
proof -
  show "0 \<le> l" using assms
    by (auto simp: ipToDecimal_def SetBytes_nonneg split: option.splits)
  have four: "SetBytes bs < 2 ^ 32" if "length bs = 4" for bs
    using SetBytes_less[of bs] that by simp
  have sixteen: "SetBytes bs < 2 ^ 128" if "length bs = 16" for bs
    using SetBytes_less[of bs] that by simp
  have p: "(2::int) ^ 32 \<le> 2 ^ 128" by simp
  show "To4 ip \<noteq> None \<Longrightarrow> l < 2 ^ 32"
  proof -
    assume "To4 ip \<noteq> None"
    then obtain b where b: "To4 ip = Some b" by auto
    then have "length b = 4" by (auto simp: To4_def split: if_splits)
    then show ?thesis using assms b four[of b] by (simp add: ipToDecimal_def)
  qed
  show "l < 2 ^ 128"
  proof (cases "To4 ip")
    case None
    then obtain c where c: "To16 ip = Some c" "l = SetBytes c"
      using assms by (auto simp: ipToDecimal_def split: option.splits)
    then have "length c = 16" by (auto simp: To16_def v4InV6Prefix_def split: if_splits)
    then show ?thesis using c(2) sixteen[of c] by simp
  next
    case (Some b)
    then have "length b = 4" by (auto simp: To4_def split: if_splits)
    then have "l < 2 ^ 32" using assms Some four[of b] by (simp add: ipToDecimal_def)
    then show ?thesis using p by linarith
  qed
qed

lemma toDecimalPairs_first_family:
  assumes "\<forall>r \<in> set ys. first_of_family v r"
    and "sorted_wrt (\<lambda>a b. address_value v (StartIP a) \<le> address_value v (StartIP b)) ys"
  shows "sorted (map First (toDecimalPairs ys v)) \<and>
         (\<forall>d \<in> set (toDecimalPairs ys v).
            0 \<le> Last d \<and> Last d < 2 ^ width_of v \<and>
            (\<exists>r \<in> set ys. First d = address_value v (StartIP r)))"
  using assms
proof (induction ys)
  case Nil
  then show ?case by simp
next
  case (Cons r ys)
  have IH: "sorted (map First (toDecimalPairs ys v)) \<and>
         (\<forall>d \<in> set (toDecimalPairs ys v).
            0 \<le> Last d \<and> Last d < 2 ^ width_of v \<and>
            (\<exists>r \<in> set ys. First d = address_value v (StartIP r)))"
    using Cons.prems by (intro Cons.IH) simp_all
  have fr: "family_ip v (StartIP r)" and en: "v \<longrightarrow> To4 (EndIP r) \<noteq> None"
    using Cons.prems(1) by (simp_all add: first_of_family_def)
  have s: "ipToDecimal (StartIP r) = Some (address_value v (StartIP r))"
    using fr by (rule family_ip_decimal(1))
  show ?case
  proof (cases "ipToDecimal (EndIP r)")
    case None
    then have "toDecimalPairs (r # ys) v = toDecimalPairs ys v" by (simp add: s)
    then show ?thesis using IH by auto
  next
    case (Some l)
    have e: "toDecimalPairs (r # ys) v =
        \<lparr>First = address_value v (StartIP r), Last = l, IsIPv4 = v\<rparr> # toDecimalPairs ys v"
      using Some by (simp add: s)
    have l: "0 \<le> l" "l < 2 ^ width_of v"
    proof -
      show "0 \<le> l" using Some by (rule ipToDecimal_bounds(1))
      show "l < 2 ^ width_of v"
      proof (cases v)
        case True
        then show ?thesis using ipToDecimal_bounds(3)[OF Some] en
          by (simp add: width_of_def maxBits_of_def)
      next
        case False
        then show ?thesis using ipToDecimal_bounds(2)[OF Some]
          by (simp add: width_of_def maxBits_of_def)
      qed
    qed
    have IH1: "sorted (map First (toDecimalPairs ys v))" using IH by (rule conjunct1)
    have IH2: "\<And>d. d \<in> set (toDecimalPairs ys v) \<Longrightarrow>
            0 \<le> Last d \<and> Last d < 2 ^ width_of v \<and>
            (\<exists>r \<in> set ys. First d = address_value v (StartIP r))"
      using IH by (rule conjunct2[THEN bspec])
    have le: "address_value v (StartIP r) \<le> First d" if d: "d \<in> set (toDecimalPairs ys v)" for d
    proof -
      obtain r' where r': "r' \<in> set ys" "First d = address_value v (StartIP r')"
        using IH2[OF d] by blast
      have "address_value v (StartIP r) \<le> address_value v (StartIP r')"
        using Cons.prems(2) r'(1) by simp
      then show ?thesis using r'(2) by simp
    qed
    have a: "sorted (map First (\<lparr>First = address_value v (StartIP r), Last = l, IsIPv4 = v\<rparr> #
               toDecimalPairs ys v))"
      using IH1 le by simp
    have b: "0 \<le> Last d \<and> Last d < 2 ^ width_of v \<and>
            (\<exists>r' \<in> set (r # ys). First d = address_value v (StartIP r'))"
      if d: "d \<in> set (\<lparr>First = address_value v (StartIP r), Last = l, IsIPv4 = v\<rparr> #
               toDecimalPairs ys v)" for d
    proof (cases "d = \<lparr>First = address_value v (StartIP r), Last = l, IsIPv4 = v\<rparr>")
      case True
      then show ?thesis using l by simp
    next
      case False
      then have "d \<in> set (toDecimalPairs ys v)" using d by simp
      then show ?thesis using IH2 by fastforce
    qed
    show ?thesis unfolding e using a b by blast
  qed
qed

lemma rustStyleAggregated_first_family:
  assumes "is_sort_Slice sortSlice" and "\<forall>r \<in> set ranges. first_of_family v r"
  shows "\<exists>ps. rustStyleAggregated sortSlice ranges v = Some (aggregate_pairs ps) \<and>
              sorted (map First ps) \<and>
              (\<forall>d \<in> set ps. 0 \<le> First d \<and> 0 \<le> Last d \<and> Last d < 2 ^ width_of v \<and> IsIPv4 d = v)"
proof -
  have vl: "\<forall>r \<in> set ranges. valid_len (StartIP r)"
    using assms(2) by (auto simp: first_of_family_def family_ip_valid_len)
  then obtain ys where ys: "sortSlice less_StartIP ranges = Some ys" "mset ys = mset ranges"
    "sorted_wrt (\<lambda>a b. less_StartIP b a = Some False) ys"
    using assms(1) unfolding is_sort_Slice_def by blast
  have set: "set ys = set ranges" using ys(2) by (rule mset_eq_setD)
  have fam: "\<forall>r \<in> set ys. first_of_family v r" using assms(2) set by simp
  have so: "sorted_wrt (\<lambda>a b. address_value v (StartIP a) \<le> address_value v (StartIP b)) ys"
  proof (rule sorted_wrt_mono_rel[OF _ ys(3)])
    fix a b assume a: "a \<in> set ys" and b: "b \<in> set ys" and l: "less_StartIP b a = Some False"
    have fa: "family_ip v (StartIP a)" and fb: "family_ip v (StartIP b)"
      using fam a b by (auto simp: first_of_family_def)
    have "less_StartIP b a = Some (key16 (StartIP b) < key16 (StartIP a))"
      using fa fb by (intro less_StartIP_key16 family_ip_valid_len)
    with l have "key16 (StartIP a) \<le> key16 (StartIP b)" by simp
    then show "address_value v (StartIP a) \<le> address_value v (StartIP b)"
      using family_ip_decimal(2)[OF fa] family_ip_decimal(2)[OF fb] by simp
  qed
  define ps where "ps = toDecimalPairs ys v"
  have p: "sorted (map First ps) \<and>
         (\<forall>d \<in> set ps. 0 \<le> Last d \<and> Last d < 2 ^ width_of v \<and>
            (\<exists>r \<in> set ys. First d = address_value v (StartIP r)))"
    unfolding ps_def using fam so by (rule toDecimalPairs_first_family)
  have iv: "\<forall>d \<in> set (toDecimalPairs zs v). IsIPv4 d = v" for zs
    by (induction zs) (auto split: option.splits)
  have f0: "0 \<le> First d" if "d \<in> set ps" for d
  proof -
    have "\<exists>r \<in> set ys. First d = address_value v (StartIP r)"
      using p[THEN conjunct2, THEN bspec, OF that] by (elim conjE)
    then obtain r where r: "r \<in> set ys" "First d = address_value v (StartIP r)" ..
    have "family_ip v (StartIP r)" using fam r(1) by (simp add: first_of_family_def)
    then have "0 \<le> address_value v (StartIP r)" by (rule family_ip_decimal(3))
    then show ?thesis using r(2) by simp
  qed
  have e: "ranges = [] \<Longrightarrow> ys = []" using ys(2) by simp
  have "rustStyleAggregated sortSlice ranges v = Some (aggregate_pairs ps)"
    using e by (auto simp: rustStyleAggregated_def ys(1) ps_def aggregate_pairs_def
        split: list.splits)
  moreover have "\<forall>d \<in> set ps. 0 \<le> First d \<and> 0 \<le> Last d \<and> Last d < 2 ^ width_of v \<and> IsIPv4 d = v"
  proof
    fix d assume d: "d \<in> set ps"
    have "0 \<le> Last d \<and> Last d < 2 ^ width_of v"
      using p[THEN conjunct2, THEN bspec, OF d] by (elim conjE) (intro conjI)
    moreover have "IsIPv4 d = v" using iv[of ys] d by (simp add: ps_def)
    ultimately show "0 \<le> First d \<and> 0 \<le> Last d \<and> Last d < 2 ^ width_of v \<and> IsIPv4 d = v"
      using f0[OF d] by simp
  qed
  moreover have "sorted (map First ps)" using p by (rule conjunct1)
  ultimately show ?thesis by blast
qed

lemma aggregate_and_normalize_first_family:
  assumes "is_sort_Slice sortSlice" and "\<forall>r \<in> set ranges. first_of_family v r"
  shows "\<exists>cs. rustStyleAggregateAndNormalize sortSlice ranges v = Some cs \<and>
              ascending_disjoint (width_of v) cs \<and>
              (\<forall>c \<in> set cs. valid_cidr (width_of v) (cidr_pair c))"
proof -
  define W where "W = width_of v"
  obtain ps where ps: "rustStyleAggregated sortSlice ranges v = Some (aggregate_pairs ps)"
    "sorted (map First ps)"
    "\<forall>d \<in> set ps. 0 \<le> First d \<and> 0 \<le> Last d \<and> Last d < 2 ^ W \<and> IsIPv4 d = v"
    using rustStyleAggregated_first_family[OF assms] unfolding W_def by blast
  define agg where "agg = aggregate_pairs ps"
  have nn: "\<forall>d \<in> set ps. 0 \<le> Last d" using ps(3) by simp
  have ch: "sorted_wrt (\<lambda>a b. Last a + 1 < First b) agg"
    unfolding agg_def by (rule aggregate_pairs_props(2)[OF ps(2) nn])
  have "\<forall>d \<in> set agg. (\<lambda>f l x. 0 \<le> f \<and> 0 \<le> l \<and> l < 2 ^ W) (First d) (Last d) (IsIPv4 d)"
    unfolding agg_def
  proof (rule aggregate_pairs_pointwise[where v = v and P = "\<lambda>f l x. 0 \<le> f \<and> 0 \<le> l \<and> l < 2 ^ W"])
    show "\<forall>d \<in> set ps. 0 \<le> First d \<and> 0 \<le> Last d \<and> Last d < 2 ^ W" using ps(3) by simp
    show "\<forall>d \<in> set ps. IsIPv4 d = v" using ps(3) by simp
    show "\<And>f l l' x. 0 \<le> f \<and> 0 \<le> l \<and> l < 2 ^ W \<Longrightarrow> \<exists>f'. 0 \<le> f' \<and> 0 \<le> l' \<and> l' < 2 ^ W \<Longrightarrow>
            l \<le> l' \<Longrightarrow> 0 \<le> f \<and> 0 \<le> l' \<and> l' < 2 ^ W"
      by blast
  qed
  then have ba: "\<forall>d \<in> set agg. 0 \<le> First d \<and> 0 \<le> Last d \<and> Last d < 2 ^ width_of v"
    by (simp add: W_def)
  obtain cs where cs: "normalize_ranges v agg [] = Some ([] @ cs)"
    "map cidr_pair cs = concat (map (\<lambda>d. map (block_pair (width_of v)) (blocks_of v d)) agg)"
    using normalize_ranges_char[OF ba, of "[]"] by blast
  have m: "map cidr_pair cs = map (block_pair (width_of v)) (concat (map (blocks_of v) agg))"
    using cs(2) by (simp add: map_concat comp_def)
  have p: "ascending_disjoint (width_of v) cs \<and> (\<forall>c \<in> set cs. valid_cidr (width_of v) (cidr_pair c))"
    using m all_blocks_chain[OF ba ch] all_blocks_greedy[OF ba]
    by (rule chain_ascending_disjoint)
  have ag: "rustStyleAggregated sortSlice ranges v = Some agg" using ps(1) by (simp add: agg_def)
  show ?thesis
  proof (cases "ranges = []")
    case True
    then have "rustStyleAggregateAndNormalize sortSlice ranges v = Some []"
      by (simp add: rustStyleAggregateAndNormalize_def)
    then show ?thesis by (simp add: ascending_disjoint_def)
  next
    case False
    then have "rustStyleAggregateAndNormalize sortSlice ranges v = Some cs"
      using ag cs(1) by (simp add: rustStyleAggregateAndNormalize_def rustStyleNormalized_def)
    then show ?thesis using p by blast
  qed
qed

text \<open>
  The emitted lists when the first address of every range belongs to the family of its
  list. Let \<open>sort.Slice\<close> behave as the library promises. Then \<open>SmartMergeNonChinaCIDRs\<close> returns two CIDR lists;
  in each of them the intervals of any two CIDRs at different positions do not
  intersect, the first addresses ascend strictly along the list, and every CIDR is
  valid. Neither sortedness nor disjointness of the input is needed, and the last
  addresses of an IPv6 list are arbitrary.
\<close>

lemma SmartMerge_first_family:
  assumes "is_sort_Slice sortSlice"
    and "\<forall>r \<in> set nonChinaIPv4. first_of_family True r"
    and "\<forall>r \<in> set nonChinaIPv6. first_of_family False r"
  shows "\<exists>mergedIPv4 mergedIPv6.
           SmartMergeNonChinaCIDRs sortSlice allIPv4 allIPv6 nonChinaIPv4 nonChinaIPv6 =
             Some (mergedIPv4, mergedIPv6) \<and>
           ascending_disjoint 32 mergedIPv4 \<and> ascending_disjoint 128 mergedIPv6 \<and>
           (\<forall>c \<in> set mergedIPv4. valid_cidr 32 (cidr_pair c)) \<and>
           (\<forall>c \<in> set mergedIPv6. valid_cidr 128 (cidr_pair c))"
proof -
  have w: "width_of True = 32" "width_of False = 128" by (simp_all add: width_of_def maxBits_of_def)
  obtain m4 where m4: "rustStyleAggregateAndNormalize sortSlice nonChinaIPv4 True = Some m4"
    "ascending_disjoint 32 m4" "\<forall>c \<in> set m4. valid_cidr 32 (cidr_pair c)"
    using aggregate_and_normalize_first_family[OF assms(1,2)] unfolding w by blast
  obtain m6 where m6: "rustStyleAggregateAndNormalize sortSlice nonChinaIPv6 False = Some m6"
    "ascending_disjoint 128 m6" "\<forall>c \<in> set m6. valid_cidr 128 (cidr_pair c)"
    using aggregate_and_normalize_first_family[OF assms(1,3)] unfolding w by blast
  have "SmartMergeNonChinaCIDRs sortSlice allIPv4 allIPv6 nonChinaIPv4 nonChinaIPv6 = Some (m4, m6)"
    by (simp add: SmartMergeNonChinaCIDRs_def m4(1) m6(1))
  then show ?thesis using m4(2,3) m6(2,3) by blast
qed


section \<open>The emitted list on a first address with the IPv4-mapped prefix\<close>











end
